theory Spec2Isabelle
  imports Main "HOL-Library.Multiset"
begin

section \<open>Data model\<close>

text \<open>
  The program is \<^verbatim>\<open>step2-convert_pdf_to_chapters.py\<close>. A chapter is the Python dict built
  by \<^verbatim>\<open>extract_toc_from_pdf\<close> with the keys \<^verbatim>\<open>number\<close>, \<^verbatim>\<open>title\<close>, \<^verbatim>\<open>page\<close> and \<^verbatim>\<open>level\<close>; the
  key \<^verbatim>\<open>actual_page\<close> is absent until \<^verbatim>\<open>find_chapter_actual_pages\<close> stores it, so it is an
  option here and reading it while absent is the \<^verbatim>\<open>KeyError\<close> of the source.
  Python integers are unbounded: \<open>int\<close>. Text is ASCII: one \<open>char\<close> per character.
  The record is called \<open>chapter_dict\<close>, \<open>chapter\<close> being a keyword of Isabelle.
\<close>

datatype py_error = KeyError | ValueError | IndexError

record chapter_dict =
  number :: string
  title :: string
  page :: int
  level :: nat
  actual_page :: "int option"

text \<open>
  What the splitter leaves behind, one event per chapter it looks at: the two warnings that
  skip a chapter, or the file it writes. \<open>Saved\<close> carries the file name, the title, the
  0-based page indices handed to \<^verbatim>\<open>writer.add_page(reader.pages[page_num])\<close>, and the two page
  numbers of the line \<^verbatim>\<open>Pages: {start_page + 1} to {end_page}\<close>.
\<close>

datatype event =
    Skip_exceeds string int
  | Skip_invalid string int int
  | Saved string string "int list" int int

text \<open>One block of the \<^verbatim>\<open>--show\<close> listing: number, title, start page, end page, page count,
  output name.\<close>

datatype row = Row string string int int int string

section \<open>Splitter: \<^verbatim>\<open>split_pdf_by_chapters\<close>\<close>

text \<open>\<^verbatim>\<open>chapters[:n]\<close>: a negative bound counts from the end.\<close>

definition py_take :: "int \<Rightarrow> 'a list \<Rightarrow> 'a list" where
  "py_take n xs = (if n < 0 then take (nat (int (length xs) + n)) xs else take (nat n) xs)"

text \<open>\<^verbatim>\<open>if max_files: chapters = chapters[:max_files]\<close>; \<^verbatim>\<open>None\<close> and \<^verbatim>\<open>0\<close> are both falsy.\<close>

definition limit_chapters :: "int option \<Rightarrow> chapter_dict list \<Rightarrow> chapter_dict list" where
  "limit_chapters max_files chapters =
     (case max_files of
        None \<Rightarrow> chapters
      | Some n \<Rightarrow> if n \<noteq> 0 then py_take n chapters else chapters)"

text \<open>
  The inner loop \<^verbatim>\<open>for j in range(i + 1, len(chapters))\<close>, run over the chapters after
  position \<open>i\<close>: the first one on a strictly later page ends the search. The first argument
  is the default \<^verbatim>\<open>end_page = total_pages\<close>.
\<close>

fun find_end_page :: "int \<Rightarrow> int \<Rightarrow> chapter_dict list \<Rightarrow> py_error + int" where
  "find_end_page end_page ap [] = Inr end_page"
| "find_end_page end_page ap (next_chapter # rest) =
     (case actual_page next_chapter of
        None \<Rightarrow> Inl KeyError
      | Some nap \<Rightarrow> if nap > ap then Inr (nap - 1) else find_end_page end_page ap rest)"

text \<open>Lines 226-236: the 0-based \<^verbatim>\<open>start_page\<close> and the \<^verbatim>\<open>end_page\<close> of chapter \<open>i\<close>, before
  validation.\<close>

definition resolve_range :: "int \<Rightarrow> chapter_dict list \<Rightarrow> nat \<Rightarrow> py_error + (int \<times> int)" where
  "resolve_range total_pages chapters i =
     (case actual_page (chapters ! i) of
        None \<Rightarrow> Inl KeyError
      | Some ap \<Rightarrow>
          (case find_end_page total_pages ap (drop (Suc i) chapters) of
             Inl e \<Rightarrow> Inl e
           | Inr end_page \<Rightarrow> Inr (ap - 1, end_page)))"

text \<open>\<^verbatim>\<open>chapter['number'].replace('.', '-')\<close> inside \<^verbatim>\<open>micropython-docs....pdf\<close>.\<close>

definition output_filename :: "string \<Rightarrow> string" where
  "output_filename num =
     ''micropython-docs'' @ map (\<lambda>c. if c = CHR ''.'' then CHR ''-'' else c) num @ ''.pdf''"

text \<open>
  Lines 253-255, the loop that copies the pages. \<^verbatim>\<open>reader.pages\<close> is the page list of PyPDF2
  and is indexed as a Python sequence of \<^verbatim>\<open>total_pages\<close> elements: an index from
  \<open>- total_pages\<close> to \<open>-1\<close> counts from the end, and an index below \<open>- total_pages\<close> raises
  \<^verbatim>\<open>IndexError\<close>. The guard of line 254 keeps every index below \<^verbatim>\<open>total_pages\<close>. The result is
  the list of the indices read.
\<close>

fun add_pages :: "int \<Rightarrow> int list \<Rightarrow> py_error + int list" where
  "add_pages total_pages [] = Inr []"
| "add_pages total_pages (page_num # rest) =
     (if page_num < total_pages
      then (if page_num < - total_pages then Inl IndexError
            else (case add_pages total_pages rest of
                    Inl e \<Rightarrow> Inl e
                  | Inr pages \<Rightarrow> Inr (page_num # pages)))
      else add_pages total_pages rest)"

text \<open>Lines 238-268: validation of the range, then the copy of the pages and the file. The
  file is opened after the copy, so a chapter whose copy raises leaves no file.\<close>

definition emit_chapter :: "int \<Rightarrow> chapter_dict \<Rightarrow> int \<Rightarrow> int \<Rightarrow> py_error + event" where
  "emit_chapter total_pages ch start_page end_page0 =
     (if start_page \<ge> total_pages then Inr (Skip_exceeds (number ch) (start_page + 1))
      else
        let end_page = (if end_page0 > total_pages then total_pages else end_page0) in
        if start_page \<ge> end_page then Inr (Skip_invalid (number ch) (start_page + 1) end_page)
        else (case add_pages total_pages [start_page..end_page - 1] of
                Inl e \<Rightarrow> Inl e
              | Inr pages \<Rightarrow>
                  Inr (Saved (output_filename (number ch)) (title ch) pages
                         (start_page + 1) end_page)))"

definition split_chapter :: "int \<Rightarrow> chapter_dict list \<Rightarrow> nat \<Rightarrow> py_error + event" where
  "split_chapter total_pages chapters i =
     (case resolve_range total_pages chapters i of
        Inl e \<Rightarrow> Inl e
      | Inr (start_page, end_page) \<Rightarrow>
          emit_chapter total_pages (chapters ! i) start_page end_page)"

text \<open>The outer loop. An exception ends it: the chapters after the failing one are not
  looked at, and what was written before stays written.\<close>

fun split_loop :: "int \<Rightarrow> chapter_dict list \<Rightarrow> nat list \<Rightarrow> event list \<times> py_error option" where
  "split_loop total_pages chapters [] = ([], None)"
| "split_loop total_pages chapters (i # rest) =
     (case split_chapter total_pages chapters i of
        Inl e \<Rightarrow> ([], Some e)
      | Inr ev \<Rightarrow>
          (case split_loop total_pages chapters rest of
             (evs, err) \<Rightarrow> (ev # evs, err)))"

definition split_pdf_by_chapters ::
  "int \<Rightarrow> chapter_dict list \<Rightarrow> int option \<Rightarrow> event list \<times> py_error option" where
  "split_pdf_by_chapters total_pages chapters max_files =
     (let chapters = limit_chapters max_files chapters
      in split_loop total_pages chapters [0..<length chapters])"

section \<open>The sort and the \<^verbatim>\<open>--show\<close> listing of \<^verbatim>\<open>main\<close>\<close>

text \<open>\<^verbatim>\<open>chapters.sort(key=lambda x: x['actual_page'])\<close>: the keys are computed first, so one
  absent key raises; the sort is stable.\<close>

definition sort_chapters :: "chapter_dict list \<Rightarrow> py_error + chapter_dict list" where
  "sort_chapters chapters =
     (if list_ex (\<lambda>c. actual_page c = None) chapters then Inl KeyError
      else Inr (sort_key (\<lambda>c. the (actual_page c)) chapters))"

text \<open>\<^verbatim>\<open>all_chapters.index(chapter)\<close>: the first position holding an equal dict.\<close>

fun py_index :: "'a list \<Rightarrow> 'a \<Rightarrow> nat option" where
  "py_index [] x = None"
| "py_index (y # ys) x = (if y = x then Some 0 else map_option Suc (py_index ys x))"

definition show_chapter :: "int \<Rightarrow> chapter_dict list \<Rightarrow> chapter_dict \<Rightarrow> py_error + row" where
  "show_chapter total_pages all_chapters ch =
     (case actual_page ch of
        None \<Rightarrow> Inl KeyError
      | Some start_page \<Rightarrow>
          (case py_index all_chapters ch of
             None \<Rightarrow> Inl ValueError
           | Some current_index \<Rightarrow>
               (case find_end_page total_pages start_page (drop (Suc current_index) all_chapters) of
                  Inl e \<Rightarrow> Inl e
                | Inr end_page \<Rightarrow>
                    Inr (Row (number ch) (title ch) start_page end_page
                           (end_page - start_page + 1) (output_filename (number ch))))))"

fun show_loop :: "int \<Rightarrow> chapter_dict list \<Rightarrow> chapter_dict list \<Rightarrow> row list \<times> py_error option" where
  "show_loop total_pages all_chapters [] = ([], None)"
| "show_loop total_pages all_chapters (ch # rest) =
     (case show_chapter total_pages all_chapters ch of
        Inl e \<Rightarrow> ([], Some e)
      | Inr r \<Rightarrow>
          (case show_loop total_pages all_chapters rest of
             (rs, err) \<Rightarrow> (r # rs, err)))"

definition show_only :: "int \<Rightarrow> chapter_dict list \<Rightarrow> int option \<Rightarrow> row list \<times> py_error option" where
  "show_only total_pages chapters max_files =
     show_loop total_pages chapters (limit_chapters max_files chapters)"

section \<open>Text primitives\<close>

text \<open>
  The page source is \<^verbatim>\<open>pdfplumber\<close>: \<^verbatim>\<open>len(pdf.pages)\<close> pages, and for each page the value of
  \<^verbatim>\<open>page.extract_text()\<close>, a string or \<^verbatim>\<open>None\<close>.
\<close>

type_synonym pdf = "string option list"

text \<open>\<^verbatim>\<open>if not text: continue\<close> skips \<^verbatim>\<open>None\<close> and the empty string alike. Every index the
  source reads is below \<^verbatim>\<open>len(pdf.pages)\<close>: the ranges of its loops are clipped to it.\<close>

definition page_text :: "pdf \<Rightarrow> nat \<Rightarrow> string option" where
  "page_text pdf i = (case pdf ! i of None \<Rightarrow> None | Some t \<Rightarrow> if t = [] then None else Some t)"

text \<open>\<^verbatim>\<open>str.isspace\<close> on ASCII, which is also \<^verbatim>\<open>\s\<close> of \<^verbatim>\<open>re\<close> on \<^verbatim>\<open>str\<close> patterns: codes 9 to 13,
  28 to 31 and the blank.\<close>

definition is_space :: "char \<Rightarrow> bool" where
  "is_space c = (c \<in> set [CHR 0x09, CHR 0x0A, CHR 0x0B, CHR 0x0C, CHR 0x0D,
                            CHR 0x1C, CHR 0x1D, CHR 0x1E, CHR 0x1F, CHR 0x20])"

definition is_digit :: "char \<Rightarrow> bool" where
  "is_digit c = (c \<in> set ''0123456789'')"

definition lower_char :: "char \<Rightarrow> char" where
  "lower_char c =
     (case map_of (zip ''ABCDEFGHIJKLMNOPQRSTUVWXYZ'' ''abcdefghijklmnopqrstuvwxyz'') c of
        None \<Rightarrow> c | Some d \<Rightarrow> d)"

definition py_lower :: "string \<Rightarrow> string" where
  "py_lower s = map lower_char s"

definition strip :: "string \<Rightarrow> string" where
  "strip s = rev (dropWhile is_space (rev (dropWhile is_space s)))"

text \<open>\<^verbatim>\<open>text.split('\n')\<close>: never empty, \<^verbatim>\<open>''.split('\n') == ['']\<close>.\<close>

fun split_lines :: "string \<Rightarrow> string list" where
  "split_lines [] = [[]]"
| "split_lines (c # cs) =
     (if c = CHR 0x0A then [] # split_lines cs
      else (case split_lines cs of [] \<Rightarrow> [[c]] | l # ls \<Rightarrow> (c # l) # ls))"

text \<open>\<^verbatim>\<open>s.split()\<close>: the maximal runs of non-space characters; the first argument is the
  word being read.\<close>

fun words_from :: "string \<Rightarrow> string \<Rightarrow> string list" where
  "words_from w [] = (if w = [] then [] else [w])"
| "words_from w (c # cs) =
     (if is_space c then (if w = [] then words_from [] cs else w # words_from [] cs)
      else words_from (w @ [c]) cs)"

definition split_ws :: "string \<Rightarrow> string list" where
  "split_ws s = words_from [] s"

text \<open>\<^verbatim>\<open>' '.join(ws)\<close>.\<close>

fun join_sp :: "string list \<Rightarrow> string" where
  "join_sp [] = []"
| "join_sp [w] = w"
| "join_sp (w # ws) = w @ '' '' @ join_sp ws"

definition startswith :: "string \<Rightarrow> string \<Rightarrow> bool" where
  "startswith s pre = (take (length pre) s = pre)"

text \<open>\<^verbatim>\<open>sub in s\<close>.\<close>

fun py_in :: "string \<Rightarrow> string \<Rightarrow> bool" where
  "py_in sub [] = (sub = [])"
| "py_in sub (c # cs) = (take (length sub) (c # cs) = sub \<or> py_in sub cs)"

text \<open>\<^verbatim>\<open>int(s)\<close> on a string of ASCII digits, as group 3 of a match is (page numbers beyond
  the interpreter's limit on the length of a decimal string are left out).\<close>

definition digit_value :: "char \<Rightarrow> int" where
  "digit_value c = (case map_of (zip ''0123456789'' [0, 1, 2, 3, 4, 5, 6, 7, 8, 9]) c of
                      None \<Rightarrow> 0 | Some v \<Rightarrow> v)"

definition py_int :: "string \<Rightarrow> int" where
  "py_int s = foldl (\<lambda>n c. 10 * n + digit_value c) 0 s"

section \<open>TOC extractor: \<^verbatim>\<open>extract_toc_from_pdf\<close>\<close>

text \<open>
  \<^verbatim>\<open>re.match\<close> backtracks: each piece of a pattern offers its ways of consuming a prefix in
  the order the engine tries them (greedy: longest first; lazy: shortest first), and the
  match returned is the first way through the whole pattern. A piece is modelled by the
  list, in that order, of (text consumed, text left); a pattern by the list of its complete
  matches, whose head is what \<^verbatim>\<open>re.match\<close> returns.
\<close>

fun star_greedy :: "(char \<Rightarrow> bool) \<Rightarrow> string \<Rightarrow> (string \<times> string) list" where
  "star_greedy P [] = [([], [])]"
| "star_greedy P (c # cs) =
     (if P c then map (\<lambda>(m, r). (c # m, r)) (star_greedy P cs) @ [([], c # cs)]
      else [([], c # cs)])"

fun star_lazy :: "(char \<Rightarrow> bool) \<Rightarrow> string \<Rightarrow> (string \<times> string) list" where
  "star_lazy P [] = [([], [])]"
| "star_lazy P (c # cs) =
     ([], c # cs) # (if P c then map (\<lambda>(m, r). (c # m, r)) (star_lazy P cs) else [])"

definition plus_greedy :: "(char \<Rightarrow> bool) \<Rightarrow> string \<Rightarrow> (string \<times> string) list" where
  "plus_greedy P s =
     (case s of [] \<Rightarrow> []
      | c # cs \<Rightarrow> if P c then map (\<lambda>(m, r). (c # m, r)) (star_greedy P cs) else [])"

definition plus_lazy :: "(char \<Rightarrow> bool) \<Rightarrow> string \<Rightarrow> (string \<times> string) list" where
  "plus_lazy P s =
     (case s of [] \<Rightarrow> []
      | c # cs \<Rightarrow> if P c then map (\<lambda>(m, r). (c # m, r)) (star_lazy P cs) else [])"

text \<open>\<^verbatim>\<open>\.{2,}\<close>\<close>

definition dots_two_or_more :: "string \<Rightarrow> (string \<times> string) list" where
  "dots_two_or_more s =
     (case s of
        c # d # cs \<Rightarrow>
          if c = CHR ''.'' \<and> d = CHR ''.''
          then map (\<lambda>(m, r). (c # d # m, r)) (star_greedy (\<lambda>x. x = CHR ''.'') cs)
          else []
      | _ \<Rightarrow> [])"

text \<open>\<^verbatim>\<open>(?:\.\d+)?\<close>: with the fraction first, then without.\<close>

definition fraction_opt :: "string \<Rightarrow> (string \<times> string) list" where
  "fraction_opt s =
     (case s of
        [] \<Rightarrow> []
      | c # cs \<Rightarrow> if c = CHR ''.'' then map (\<lambda>(m, r). (c # m, r)) (plus_greedy is_digit cs) else [])
     @ [([], s)]"

text \<open>\<^verbatim>\<open>(\d+(?:\.\d+)?)\<close>\<close>

definition number_group :: "string \<Rightarrow> (string \<times> string) list" where
  "number_group s =
     [(d @ f, r2). (d, r1) \<leftarrow> plus_greedy is_digit s, (f, r2) \<leftarrow> fraction_opt r1]"

text \<open>\<^verbatim>\<open>.\<close> matches everything but a newline; \<^verbatim>\<open>$\<close> holds at the end and before a final
  newline.\<close>

definition any_char :: "char \<Rightarrow> bool" where
  "any_char c = (c \<noteq> CHR 0x0A)"

definition at_end :: "string \<Rightarrow> bool" where
  "at_end s = (s = [] \<or> s = [CHR 0x0A])"

text \<open>\<^verbatim>\<open>^(\d+(?:\.\d+)?)\s+(.+?)\s+\.{2,}\s*(\d+)\<close>: groups 1, 2, 3 of every match, in order.\<close>

definition leader_matches :: "string \<Rightarrow> (string \<times> string \<times> string) list" where
  "leader_matches line =
     [(g1, g2, g3).
        (g1, r1) \<leftarrow> number_group line,
        (s1, r2) \<leftarrow> plus_greedy is_space r1,
        (g2, r3) \<leftarrow> plus_lazy any_char r2,
        (s2, r4) \<leftarrow> plus_greedy is_space r3,
        (ds, r5) \<leftarrow> dots_two_or_more r4,
        (s3, r6) \<leftarrow> star_greedy is_space r5,
        (g3, r7) \<leftarrow> plus_greedy is_digit r6]"

text \<open>\<^verbatim>\<open>^(\d+(?:\.\d+)?)\s+(.+?)\s+(\d+)$\<close>\<close>

definition plain_matches :: "string \<Rightarrow> (string \<times> string \<times> string) list" where
  "plain_matches line =
     [(g1, g2, g3).
        (g1, r1) \<leftarrow> number_group line,
        (s1, r2) \<leftarrow> plus_greedy is_space r1,
        (g2, r3) \<leftarrow> plus_lazy any_char r2,
        (s2, r4) \<leftarrow> plus_greedy is_space r3,
        (g3, r5) \<leftarrow> plus_greedy is_digit r4,
        at_end r5]"

definition first_match :: "'a list \<Rightarrow> 'a option" where
  "first_match ms = (case ms of [] \<Rightarrow> None | m # _ \<Rightarrow> Some m)"

text \<open>Lines 39-42: the leader pattern, and the plain one only when the first fails.\<close>

definition toc_match :: "string \<Rightarrow> (string \<times> string \<times> string) option" where
  "toc_match line =
     (case first_match (leader_matches line) of
        None \<Rightarrow> first_match (plain_matches line)
      | Some m \<Rightarrow> Some m)"

text \<open>Lines 44-57: the chapter a line contributes, if any.\<close>

definition toc_line :: "string \<Rightarrow> chapter_dict option" where
  "toc_line line =
     (case toc_match line of
        None \<Rightarrow> None
      | Some (chapter_num, g2, page_num_str) \<Rightarrow>
          let lvl = count_list chapter_num CHR ''.'' in
          if lvl = 1
          then Some \<lparr>number = chapter_num, title = strip g2, page = py_int page_num_str,
                     level = lvl, actual_page = None\<rparr>
          else None)"

fun extract_lines :: "string list \<Rightarrow> chapter_dict list \<Rightarrow> chapter_dict list" where
  "extract_lines [] chapters = chapters"
| "extract_lines (line # rest) chapters =
     extract_lines rest
       (case toc_line line of None \<Rightarrow> chapters | Some c \<Rightarrow> chapters @ [c])"

fun extract_pages :: "pdf \<Rightarrow> nat list \<Rightarrow> chapter_dict list \<Rightarrow> chapter_dict list" where
  "extract_pages pdf [] chapters = chapters"
| "extract_pages pdf (page_num # rest) chapters =
     (case page_text pdf page_num of
        None \<Rightarrow> extract_pages pdf rest chapters
      | Some text \<Rightarrow> extract_pages pdf rest (extract_lines (split_lines text) chapters))"

definition extract_toc_from_pdf :: "pdf \<Rightarrow> chapter_dict list" where
  "extract_toc_from_pdf pdf = extract_pages pdf [0..<min 20 (length pdf)] []"

section \<open>Offset detector: \<^verbatim>\<open>auto_detect_page_offset\<close>\<close>

text \<open>What the two search stages print, apart from their banners: the offset found (page,
  score, offset), the warning that none was, and the warning that a chapter was not located
  (number, page used).\<close>

datatype message =
    Offset_found int int int
  | Offset_not_detected
  | Chapter_not_located string int

text \<open>Lines 99-118, the loop over the lines of one page; \<open>title_clean\<close> is the title with its
  blanks normalised.\<close>

fun offset_lines_score :: "string \<Rightarrow> string \<Rightarrow> string list \<Rightarrow> int" where
  "offset_lines_score chapter_num title_clean [] = 0"
| "offset_lines_score chapter_num title_clean (l # rest) =
     (let line = strip l in
      (if startswith line (chapter_num @ '' '') \<or> startswith line (chapter_num @ [CHR 0x09])
       then 50 + (case rest of
                    [] \<Rightarrow> 0
                  | next_line # _ \<Rightarrow>
                      if py_in (py_lower (take 30 title_clean)) (py_lower (strip next_line))
                      then 50 else 0)
       else 0)
      + (if py_in chapter_num line
         then 10 * int (length (filter (\<lambda>word. py_in word (py_lower line))
                                   (take 5 (split_ws (py_lower title_clean)))))
         else 0)
      + offset_lines_score chapter_num title_clean rest)"

text \<open>Lines 92-122: the score of one page.\<close>

definition offset_page_score :: "string \<Rightarrow> string \<Rightarrow> string \<Rightarrow> int" where
  "offset_page_score chapter_num chapter_title text =
     (let text_clean = join_sp (split_ws text);
          title_clean = join_sp (split_ws chapter_title);
          score = offset_lines_score chapter_num title_clean (split_lines text)
      in if py_in (py_lower (take 20 title_clean)) (py_lower text_clean)
         then score + 20 else score)"

text \<open>Lines 84-127: the loop over the window, carrying \<^verbatim>\<open>best_match_page\<close> and
  \<^verbatim>\<open>best_match_score\<close>.\<close>

fun offset_scan ::
  "pdf \<Rightarrow> string \<Rightarrow> string \<Rightarrow> nat list \<Rightarrow> nat option \<times> int \<Rightarrow> nat option \<times> int" where
  "offset_scan pdf chapter_num chapter_title [] best = best"
| "offset_scan pdf chapter_num chapter_title (actual_page_index # rest)
       (best_match_page, best_match_score) =
     (case page_text pdf actual_page_index of
        None \<Rightarrow>
          offset_scan pdf chapter_num chapter_title rest (best_match_page, best_match_score)
      | Some text \<Rightarrow>
          let score = offset_page_score chapter_num chapter_title text in
          if score > best_match_score
          then offset_scan pdf chapter_num chapter_title rest (Some actual_page_index, score)
          else offset_scan pdf chapter_num chapter_title rest
                 (best_match_page, best_match_score))"

text \<open>\<^verbatim>\<open>range(search_start, search_end)\<close> for the window \<open>[toc_page - behind, toc_page + ahead)\<close>
  clipped to the document.\<close>

definition search_window :: "pdf \<Rightarrow> int \<Rightarrow> int \<Rightarrow> int \<Rightarrow> nat list" where
  "search_window pdf toc_page behind ahead =
     (let search_start = max 0 (toc_page - behind);
          search_end = min (int (length pdf)) (toc_page + ahead)
      in [nat search_start..<nat search_end])"

definition auto_detect_page_offset :: "pdf \<Rightarrow> chapter_dict list \<Rightarrow> int \<times> message list" where
  "auto_detect_page_offset pdf chapters =
     (case chapters of
        [] \<Rightarrow> (0, [])
      | first_chapter # _ \<Rightarrow>
          let toc_page = page first_chapter;
              (best_match_page, best_match_score) =
                 offset_scan pdf (number first_chapter) (title first_chapter)
                   (search_window pdf toc_page 20 30) (None, 0)
          in (case best_match_page of
                None \<Rightarrow> (0, [Offset_not_detected])
              | Some best \<Rightarrow>
                  if best_match_score \<ge> 30
                  then let actual = int best + 1; offset = actual - toc_page
                       in (offset, [Offset_found actual best_match_score offset])
                  else (0, [Offset_not_detected])))"

section \<open>Chapter locator: \<^verbatim>\<open>find_chapter_actual_pages\<close>\<close>

text \<open>Lines 173-187, the loop over the lines of one page.\<close>

fun locate_lines_score :: "string \<Rightarrow> string \<Rightarrow> string list \<Rightarrow> int" where
  "locate_lines_score chapter_num chapter_title [] = 0"
| "locate_lines_score chapter_num chapter_title (l # rest) =
     (let line_stripped = strip l in
      (if startswith line_stripped (chapter_num @ '' '')
          \<or> startswith line_stripped (chapter_num @ [CHR 0x09])
       then 100 +
         (let title_words = take 3 (split_ws (py_lower chapter_title)) in
          if list_ex (\<lambda>word. py_in word (py_lower line_stripped)) title_words then 50
          else (case rest of
                  [] \<Rightarrow> 0
                | l2 # _ \<Rightarrow>
                    let next_line = py_lower (strip l2) in
                    if list_ex (\<lambda>word. py_in word next_line) title_words then 50 else 0))
       else 0)
      + locate_lines_score chapter_num chapter_title rest)"

text \<open>Lines 163-191: the loop over the window; the best page is kept 1-based.\<close>

fun locate_scan ::
  "pdf \<Rightarrow> string \<Rightarrow> string \<Rightarrow> nat list \<Rightarrow> int option \<times> int \<Rightarrow> int option \<times> int" where
  "locate_scan pdf chapter_num chapter_title [] best = best"
| "locate_scan pdf chapter_num chapter_title (page_index # rest)
       (best_match_page, best_match_score) =
     (case page_text pdf page_index of
        None \<Rightarrow>
          locate_scan pdf chapter_num chapter_title rest (best_match_page, best_match_score)
      | Some text \<Rightarrow>
          let score = locate_lines_score chapter_num chapter_title (split_lines text) in
          if score > best_match_score
          then locate_scan pdf chapter_num chapter_title rest (Some (int page_index + 1), score)
          else locate_scan pdf chapter_num chapter_title rest
                 (best_match_page, best_match_score))"

text \<open>Lines 151-200: one chapter, with the warning when it falls back to the TOC page.\<close>

definition locate_chapter :: "pdf \<Rightarrow> chapter_dict \<Rightarrow> chapter_dict \<times> message list" where
  "locate_chapter pdf ch =
     (let toc_page = page ch;
          (best_match_page, best_match_score) =
             locate_scan pdf (number ch) (title ch) (search_window pdf toc_page 5 15) (None, 0)
      in (case best_match_page of
            None \<Rightarrow> (ch\<lparr>actual_page := Some toc_page\<rparr>, [Chapter_not_located (number ch) toc_page])
          | Some best \<Rightarrow>
              if best_match_score \<ge> 100 then (ch\<lparr>actual_page := Some best\<rparr>, [])
              else (ch\<lparr>actual_page := Some toc_page\<rparr>,
                    [Chapter_not_located (number ch) toc_page])))"

fun find_chapter_actual_pages :: "pdf \<Rightarrow> chapter_dict list \<Rightarrow> chapter_dict list \<times> message list" where
  "find_chapter_actual_pages pdf [] = ([], [])"
| "find_chapter_actual_pages pdf (ch # rest) =
     (case locate_chapter pdf ch of
        (ch', ms) \<Rightarrow>
          (case find_chapter_actual_pages pdf rest of
             (rest', ms') \<Rightarrow> (ch' # rest', ms @ ms')))"

section \<open>The pipeline: \<^verbatim>\<open>main\<close>\<close>

text \<open>How a run ends: no chapter in the TOC, an exception of the sort, the listing of
  \<^verbatim>\<open>--show\<close>, or the split with the number of files the last line reports. An exception
  inside the listing or the split is the second component of its result; the last line is
  printed only when there is none.\<close>

datatype outcome =
    No_chapters
  | Raised py_error
  | Shown "row list \<times> py_error option"
  | Extracted "event list \<times> py_error option" int

text \<open>Both readers open the same file: \<^verbatim>\<open>len(reader.pages)\<close> is the number of pages of the
  page source.\<close>

definition main :: "pdf \<Rightarrow> bool \<Rightarrow> int option \<Rightarrow> message list \<times> outcome" where
  "main pdf show_flag max_files =
     (let chapters = extract_toc_from_pdf pdf in
      if chapters = [] then ([], No_chapters)
      else
        let (page_offset, ms1) = auto_detect_page_offset pdf chapters;
            chapters = (if page_offset \<noteq> 0
                        then map (\<lambda>c. c\<lparr>page := page c + page_offset\<rparr>) chapters
                        else chapters);
            (chapters, ms2) = find_chapter_actual_pages pdf chapters
        in (case sort_chapters chapters of
              Inl e \<Rightarrow> (ms1 @ ms2, Raised e)
            | Inr chapters \<Rightarrow>
                if show_flag
                then (ms1 @ ms2, Shown (show_only (int (length pdf)) chapters max_files))
                else (ms1 @ ms2,
                      Extracted (split_pdf_by_chapters (int (length pdf)) chapters max_files)
                        (case max_files of
                           None \<Rightarrow> int (length chapters)
                         | Some n \<Rightarrow> if n \<noteq> 0 then min (int (length chapters)) n
                                     else int (length chapters)))))"

section \<open>The boundary rule in the specification's words\<close>

text \<open>
  The end page of entry \<open>i\<close> as the specification words it, over the list of the entries'
  actual pages: one less than the page of the nearest following entry whose page is
  strictly greater, and the total number of pages when there is none. The resolver of the
  source is compared with it below.
\<close>

definition spec_end_page :: "int \<Rightarrow> int list \<Rightarrow> nat \<Rightarrow> int" where
  "spec_end_page total_pages aps i =
     (case filter (\<lambda>j. aps ! j > aps ! i) [Suc i..<length aps] of
        [] \<Rightarrow> total_pages
      | j # _ \<Rightarrow> aps ! j - 1)"

text \<open>The pages of a list of chapters that all have one.\<close>

definition actual_pages :: "chapter_dict list \<Rightarrow> int list" where
  "actual_pages chapters = map (\<lambda>c. the (actual_page c)) chapters"

section \<open>Boundary resolution\<close>

text \<open>Once every chapter has its page, the inner loop is a search for the first chapter on
  a strictly later page.\<close>

lemma find_end_page_find:
  "\<forall>c\<in>set cs. actual_page c \<noteq> None \<Longrightarrow>
   find_end_page T p cs =
     Inr (case List.find (\<lambda>c. p < the (actual_page c)) cs of
            None \<Rightarrow> T | Some c \<Rightarrow> the (actual_page c) - 1)"
  by (induction cs) auto

lemma find_drop_index:
  "List.find P (drop (Suc i) xs) = Some x \<longleftrightarrow>
     (\<exists>j. i < j \<and> j < length xs \<and> P (xs ! j) \<and> x = xs ! j \<and> (\<forall>k. i < k \<and> k < j \<longrightarrow> \<not> P (xs ! k)))"
  (is "?L = ?R")
proof
  assume ?L
  then obtain m where m: "m < length (drop (Suc i) xs)" "P (drop (Suc i) xs ! m)"
      "x = drop (Suc i) xs ! m" "\<forall>k<m. \<not> P (drop (Suc i) xs ! k)"
    unfolding find_Some_iff by blast
  have "\<forall>k. i < k \<and> k < Suc i + m \<longrightarrow> \<not> P (xs ! k)"
  proof (intro allI impI)
    fix k assume k: "i < k \<and> k < Suc i + m"
    then have "k - Suc i < m" by arith
    with m(4) have "\<not> P (drop (Suc i) xs ! (k - Suc i))" by blast
    moreover have "Suc i + (k - Suc i) = k" using k by arith
    ultimately show "\<not> P (xs ! k)" using m(1) k by simp
  qed
  with m show ?R
    by (intro exI[of _ "Suc i + m"]) auto
next
  assume ?R
  then obtain j where j: "i < j" "j < length xs" "P (xs ! j)" "x = xs ! j"
      "\<forall>k. i < k \<and> k < j \<longrightarrow> \<not> P (xs ! k)" by blast
  show ?L unfolding find_Some_iff
    using j by (intro exI[of _ "j - Suc i"]) auto
qed

lemma find_drop_none:
  "List.find P (drop (Suc i) xs) = None \<longleftrightarrow> (\<forall>j. i < j \<and> j < length xs \<longrightarrow> \<not> P (xs ! j))"
  (is "?L = ?R")
proof
  assume L: ?L
  show ?R
  proof (intro allI impI)
    fix j assume j: "i < j \<and> j < length xs"
    then have "drop (Suc i) xs ! (j - Suc i) = xs ! j" "j - Suc i < length (drop (Suc i) xs)"
      by auto
    then have "xs ! j \<in> set (drop (Suc i) xs)"
      by (metis nth_mem)
    with L show "\<not> P (xs ! j)" by (auto simp: find_None_iff)
  qed
next
  assume R: ?R
  show ?L unfolding find_None_iff
    using R by (auto simp: in_set_conv_nth)
qed


lemma resolve_range_assigned:
  assumes "\<forall>c\<in>set chs. actual_page c \<noteq> None" and "i < length chs"
  shows "resolve_range T chs i =
     Inr (the (actual_page (chs ! i)) - 1,
          case List.find (\<lambda>c. the (actual_page (chs ! i)) < the (actual_page c)) (drop (Suc i) chs) of
            None \<Rightarrow> T | Some c \<Rightarrow> the (actual_page c) - 1)"
proof -
  from assms obtain p where p: "actual_page (chs ! i) = Some p"
    by (metis nth_mem not_None_eq)
  have "\<forall>c\<in>set (drop (Suc i) chs). actual_page c \<noteq> None"
    using assms(1) by (meson in_set_dropD)
  then show ?thesis
    by (simp add: resolve_range_def p find_end_page_find)
qed

lemma sort_chapters_assigned:
  "\<forall>c\<in>set chs. actual_page c \<noteq> None \<Longrightarrow>
   sort_chapters chs = Inr (sort_key (\<lambda>c. the (actual_page c)) chs)"
  by (auto simp: sort_chapters_def list_ex_iff)

section \<open>The splitter on located chapters\<close>

lemma find_as_filter:
  "List.find P xs = (case filter P xs of [] \<Rightarrow> None | x # _ \<Rightarrow> Some x)"
  by (induction xs) auto

lemma drop_as_map_nth: "drop k xs = map (\<lambda>j. xs ! j) [k..<length xs]"
proof -
  have "drop k (map (\<lambda>j. xs ! j) [0..<length xs]) = map (\<lambda>j. xs ! j) [k..<length xs]"
    by (simp add: drop_map)
  then show ?thesis by (simp add: map_nth)
qed

lemma length_actual_pages: "length (actual_pages chs) = length chs"
  by (simp add: actual_pages_def)

lemma resolve_range_spec:
  assumes asg: "\<forall>c\<in>set chs. actual_page c \<noteq> None" and i: "i < length chs"
  shows "resolve_range T chs i =
           Inr (actual_pages chs ! i - 1, spec_end_page T (actual_pages chs) i)"
proof -
  define f where "f = (\<lambda>c::chapter_dict. the (actual_page c))"
  define p where "p = f (chs ! i)"
  have aps: "actual_pages chs ! j = f (chs ! j)" if "j < length chs" for j
    using that by (simp add: actual_pages_def f_def)
  have "filter (\<lambda>c. p < f c) (drop (Suc i) chs)
          = map (\<lambda>j. chs ! j) (filter (\<lambda>j. p < f (chs ! j)) [Suc i..<length chs])"
    by (simp add: drop_as_map_nth[of "Suc i" chs] filter_map comp_def)
  also have "filter (\<lambda>j. p < f (chs ! j)) [Suc i..<length chs]
          = filter (\<lambda>j. actual_pages chs ! j > actual_pages chs ! i) [Suc i..<length chs]"
    using i by (intro filter_cong) (auto simp: aps p_def)
  finally have flt: "filter (\<lambda>c. p < f c) (drop (Suc i) chs)
          = map (\<lambda>j. chs ! j)
              (filter (\<lambda>j. actual_pages chs ! j > actual_pages chs ! i) [Suc i..<length chs])" .
  have "(case List.find (\<lambda>c. p < f c) (drop (Suc i) chs) of
            None \<Rightarrow> T | Some c \<Rightarrow> f c - 1) = spec_end_page T (actual_pages chs) i"
  proof (cases "filter (\<lambda>j. actual_pages chs ! j > actual_pages chs ! i) [Suc i..<length chs]")
    case Nil
    then show ?thesis
      by (simp add: find_as_filter flt spec_end_page_def length_actual_pages)
  next
    case (Cons j js)
    then have "j \<in> set [Suc i..<length chs]"
      by (metis filter_is_subset list.set_intros(1) subsetD)
    then have "j < length chs" by simp
    with Cons show ?thesis
      by (simp add: find_as_filter flt spec_end_page_def aps length_actual_pages)
  qed
  then show ?thesis
    using resolve_range_assigned[OF asg i, of T] aps[OF i]
    unfolding p_def f_def by simp
qed

text \<open>The end page the resolver finds is never before the start page.\<close>

lemma spec_end_page_ge:
  assumes "i < length aps" and "aps ! i \<le> T"
  shows "aps ! i \<le> spec_end_page T aps i"
proof (cases "filter (\<lambda>j. aps ! j > aps ! i) [Suc i..<length aps]")
  case Nil
  then show ?thesis using assms by (simp add: spec_end_page_def)
next
  case (Cons j js)
  then have "j \<in> set (filter (\<lambda>j. aps ! j > aps ! i) [Suc i..<length aps])" by simp
  then have "aps ! i < aps ! j" by simp
  with Cons show ?thesis by (simp add: spec_end_page_def)
qed

text \<open>The copy of the pages raises exactly when its first index is below \<open>- total_pages\<close>.\<close>

lemma add_pages_all:
  "\<forall>k\<in>set ks. - T \<le> k \<and> k < T \<Longrightarrow> add_pages T ks = Inr ks"
  by (induction ks) auto

lemma add_pages_error: "add_pages T ks = Inl err \<Longrightarrow> err = IndexError"
  by (induction ks) (auto split: if_splits sum.splits)

lemma emit_chapter_cases:
  "emit_chapter T ch s e =
     (if T \<le> s then Inr (Skip_exceeds (number ch) (s + 1))
      else if min e T \<le> s then Inr (Skip_invalid (number ch) (s + 1) (min e T))
      else if s < - T then Inl IndexError
      else Inr (Saved (output_filename (number ch)) (title ch)
                  [s..min e T - 1] (s + 1) (min e T)))"
proof -
  have copy: "add_pages T [s..min e T - 1] =
      (if s < - T then Inl IndexError else Inr [s..min e T - 1])"
    if "s < T" and "s < min e T"
  proof (cases "s < - T")
    case True
    from that have "[s..min e T - 1] = s # [s + 1..min e T - 1]"
      by (simp add: upto_rec1)
    with True that show ?thesis by simp
  next
    case False
    then have "\<forall>k\<in>set [s..min e T - 1]. - T \<le> k \<and> k < T" by auto
    from add_pages_all[OF this] False show ?thesis by simp
  qed
  show ?thesis
  proof (cases "T \<le> s \<or> min e T \<le> s")
    case True
    then show ?thesis by (auto simp: emit_chapter_def Let_def min_def)
  next
    case False
    then have "s < T" "s < min e T" by auto
    from copy[OF this] False show ?thesis
      by (auto simp: emit_chapter_def Let_def min_def)
  qed
qed

lemma emit_chapter_error: "emit_chapter T ch s e = Inl err \<Longrightarrow> err = IndexError"
  by (auto simp: emit_chapter_cases split: if_splits)

lemma emit_chapter_in_range:
  assumes "1 \<le> p" and "p \<le> T" and "p \<le> e"
  shows "emit_chapter T ch (p - 1) e =
           Inr (Saved (output_filename (number ch)) (title ch) [p - 1..min e T - 1] p (min e T))"
  using assms by (simp add: emit_chapter_cases)

lemma emit_chapter_beyond:
  "T < p \<Longrightarrow> emit_chapter T ch (p - 1) e = Inr (Skip_exceeds (number ch) p)"
  by (simp add: emit_chapter_cases)

text \<open>The splitter on chapters that all have a page, and a page from 1 on: no exception, and
  one event per chapter.\<close>

lemma split_chapter_assigned:
  assumes "\<forall>c\<in>set chs. actual_page c \<noteq> None" and "i < length chs"
  shows "split_chapter T chs i =
           emit_chapter T (chs ! i) (actual_pages chs ! i - 1)
             (spec_end_page T (actual_pages chs) i)"
  by (simp add: split_chapter_def resolve_range_spec[OF assms])

lemma split_chapter_located:
  assumes asg: "\<forall>c\<in>set chs. actual_page c \<noteq> None" and i: "i < length chs"
    and pos: "1 \<le> actual_pages chs ! i"
  shows "split_chapter T chs i =
           Inr (if actual_pages chs ! i \<le> T
                then Saved (output_filename (number (chs ! i))) (title (chs ! i))
                       [actual_pages chs ! i - 1..min (spec_end_page T (actual_pages chs) i) T - 1]
                       (actual_pages chs ! i) (min (spec_end_page T (actual_pages chs) i) T)
                else Skip_exceeds (number (chs ! i)) (actual_pages chs ! i))"
proof (cases "actual_pages chs ! i \<le> T")
  case True
  have "actual_pages chs ! i \<le> spec_end_page T (actual_pages chs) i"
    using spec_end_page_ge[of i "actual_pages chs" T] i True by (simp add: length_actual_pages)
  from emit_chapter_in_range[OF pos True this] True show ?thesis
    by (simp add: split_chapter_assigned[OF asg i])
next
  case False
  then show ?thesis
    by (simp add: split_chapter_assigned[OF asg i] emit_chapter_beyond)
qed

lemma split_loop_located:
  assumes "\<forall>c\<in>set chs. actual_page c \<noteq> None"
    and "\<forall>i\<in>set is. i < length chs \<and> 1 \<le> actual_pages chs ! i"
  shows "split_loop T chs is =
           (map (\<lambda>i. if actual_pages chs ! i \<le> T
                then Saved (output_filename (number (chs ! i))) (title (chs ! i))
                       [actual_pages chs ! i - 1..min (spec_end_page T (actual_pages chs) i) T - 1]
                       (actual_pages chs ! i) (min (spec_end_page T (actual_pages chs) i) T)
                else Skip_exceeds (number (chs ! i)) (actual_pages chs ! i)) is, None)"
  using assms(2)
  by (induction "is") (simp_all add: split_chapter_located[OF assms(1)])

lemma split_unlimited_located:
  assumes "\<forall>c\<in>set chs. actual_page c \<noteq> None"
    and "\<forall>c\<in>set chs. 1 \<le> the (actual_page c)"
  shows "split_pdf_by_chapters T chs None =
           (map (\<lambda>i. if actual_pages chs ! i \<le> T
                then Saved (output_filename (number (chs ! i))) (title (chs ! i))
                       [actual_pages chs ! i - 1..min (spec_end_page T (actual_pages chs) i) T - 1]
                       (actual_pages chs ! i) (min (spec_end_page T (actual_pages chs) i) T)
                else Skip_exceeds (number (chs ! i)) (actual_pages chs ! i)) [0..<length chs], None)"
proof -
  have "\<forall>i\<in>set [0..<length chs]. i < length chs \<and> 1 \<le> actual_pages chs ! i"
    using assms(2) by (simp add: actual_pages_def)
  from split_loop_located[OF assms(1) this] show ?thesis
    by (simp add: split_pdf_by_chapters_def limit_chapters_def)
qed

text \<open>
  C1. Let every chapter have its \<^verbatim>\<open>actual_page\<close>. The sort of \<^verbatim>\<open>main\<close> succeeds and returns
  a stable rearrangement ordered by \<^verbatim>\<open>actual_page\<close>. On that list the resolver gives chapter
  \<open>i\<close> the 0-based start \<open>p - 1\<close>, that is the start page \<open>p = actual_page(i)\<close>, and the end page
  \<open>e\<close>, where either \<open>e + 1\<close> is the page of the nearest following chapter \<open>j\<close> on a strictly
  later page (every chapter between \<open>i\<close> and \<open>j\<close> is on a page \<open>\<le> p\<close>), or no following chapter
  is on a later page and \<open>e = total_pages\<close>. When the pages are strictly increasing,
  the sort changes nothing and the end pages are \<open>p\<^sub>2 - 1, \<dots>, p\<^sub>n - 1, total_pages\<close>; if
  moreover all pages are pages of the document, from 1 to \<open>total_pages\<close>, the splitter
  without a limit raises nothing and writes for chapter \<open>i\<close> exactly the pages \<open>p\<close> to \<open>e\<close>.
\<close>

theorem boundary_resolver_ranges:
  assumes assigned: "\<forall>c\<in>set chapters. actual_page c \<noteq> None"
    and i: "i < length chapters"
  shows "\<exists>srt p e.
      sort_chapters chapters = Inr srt \<and> mset srt = mset chapters \<and>
      sorted (map (\<lambda>c. the (actual_page c)) srt) \<and>
      (\<forall>k. filter (\<lambda>c. the (actual_page c) = k) srt = filter (\<lambda>c. the (actual_page c) = k) chapters) \<and>
      actual_page (srt ! i) = Some p \<and>
      resolve_range total_pages srt i = Inr (p - 1, e) \<and>
      ((\<exists>j. i < j \<and> j < length srt \<and> actual_page (srt ! j) = Some (e + 1) \<and> p < e + 1 \<and>
            (\<forall>k. i < k \<and> k < j \<longrightarrow> the (actual_page (srt ! k)) \<le> p))
       \<or> (e = total_pages \<and> (\<forall>j. i < j \<and> j < length srt \<longrightarrow> the (actual_page (srt ! j)) \<le> p))) \<and>
      (sorted_wrt (<) (map (\<lambda>c. the (actual_page c)) chapters) \<longrightarrow>
         srt = chapters \<and>
         e = (if Suc i < length chapters then the (actual_page (chapters ! Suc i)) - 1
              else total_pages) \<and>
         ((\<forall>c\<in>set chapters. 1 \<le> the (actual_page c) \<and> the (actual_page c) \<le> total_pages) \<longrightarrow>
            snd (split_pdf_by_chapters total_pages chapters None) = None \<and>
            fst (split_pdf_by_chapters total_pages chapters None) ! i
              = Saved (output_filename (number (chapters ! i))) (title (chapters ! i))
                  [p - 1..e - 1] p e))"
proof -
  define f where "f = (\<lambda>c::chapter_dict. the (actual_page c))"
  define srt where "srt = sort_key f chapters"
  define p where "p = f (srt ! i)"
  define e where "e = (case List.find (\<lambda>c. p < f c) (drop (Suc i) srt) of
            None \<Rightarrow> total_pages | Some c \<Rightarrow> f c - 1)"
  have asg: "\<forall>c\<in>set srt. actual_page c \<noteq> None" using assigned by (simp add: srt_def)
  have len: "i < length srt" using i by (simp add: srt_def)
  have some: "actual_page (srt ! k) = Some (f (srt ! k))" if "k < length srt" for k
    using asg that by (auto simp: f_def)
  have 1: "sort_chapters chapters = Inr srt"
    using sort_chapters_assigned[OF assigned] by (simp add: srt_def f_def)
  have 2: "mset srt = mset chapters" by (simp add: srt_def)
  have 3: "sorted (map f srt)" by (simp add: srt_def)
  have 4: "\<forall>k. filter (\<lambda>c. f c = k) srt = filter (\<lambda>c. f c = k) chapters"
    by (simp add: srt_def sort_key_stable)
  have 5: "actual_page (srt ! i) = Some p" using some[OF len] by (simp add: p_def)
  have 6: "resolve_range total_pages srt i = Inr (p - 1, e)"
    using resolve_range_assigned[OF asg len, of total_pages] unfolding e_def p_def f_def .
  have 7: "(\<exists>j. i < j \<and> j < length srt \<and> actual_page (srt ! j) = Some (e + 1) \<and> p < e + 1 \<and>
            (\<forall>k. i < k \<and> k < j \<longrightarrow> f (srt ! k) \<le> p))
       \<or> (e = total_pages \<and> (\<forall>j. i < j \<and> j < length srt \<longrightarrow> f (srt ! j) \<le> p))"
  proof (cases "List.find (\<lambda>c. p < f c) (drop (Suc i) srt)")
    case None
    then have "e = total_pages" by (simp add: e_def)
    moreover from None have "\<forall>j. i < j \<and> j < length srt \<longrightarrow> f (srt ! j) \<le> p"
      unfolding find_drop_none by (simp add: not_less)
    ultimately show ?thesis by blast
  next
    case (Some c)
    then obtain j where j: "i < j" "j < length srt" "p < f (srt ! j)" "c = srt ! j"
        "\<forall>k. i < k \<and> k < j \<longrightarrow> \<not> p < f (srt ! k)"
      unfolding find_drop_index by blast
    from Some have e: "e = f c - 1" by (simp add: e_def)
    have "actual_page (srt ! j) = Some (e + 1)" using some[OF j(2)] j(4) e by simp
    moreover have "p < e + 1" using j(3,4) e by simp
    moreover have "\<forall>k. i < k \<and> k < j \<longrightarrow> f (srt ! k) \<le> p" using j(5) by (simp add: not_less)
    ultimately show ?thesis using j(1,2) by blast
  qed
  have 8: "srt = chapters \<and>
         e = (if Suc i < length chapters then f (chapters ! Suc i) - 1 else total_pages) \<and>
         ((\<forall>c\<in>set chapters. 1 \<le> f c \<and> f c \<le> total_pages) \<longrightarrow>
            snd (split_pdf_by_chapters total_pages chapters None) = None \<and>
            fst (split_pdf_by_chapters total_pages chapters None) ! i
              = Saved (output_filename (number (chapters ! i))) (title (chapters ! i))
                  [p - 1..e - 1] p e)"
    if strict: "sorted_wrt (<) (map f chapters)"
  proof -
    have "sorted (map f chapters)" using strict by (rule strict_sorted_imp_sorted)
    then have eq: "srt = chapters" by (simp add: srt_def sort_key_id_if_sorted)
    have e': "e = (if Suc i < length chapters then f (chapters ! Suc i) - 1 else total_pages)"
    proof (cases "Suc i < length chapters")
      case True
      have "f (chapters ! i) < f (chapters ! Suc i)"
        using strict True by (simp add: sorted_wrt_iff_nth_less)
      then have "List.find (\<lambda>c. p < f c) (drop (Suc i) srt) = Some (chapters ! Suc i)"
        using True unfolding find_drop_index eq p_def
        by (intro exI[of _ "Suc i"]) auto
      then show ?thesis using True by (simp add: e_def)
    next
      case False
      then have "drop (Suc i) srt = []" by (simp add: eq)
      then show ?thesis using False by (simp add: e_def)
    qed
    have "snd (split_pdf_by_chapters total_pages chapters None) = None \<and>
          fst (split_pdf_by_chapters total_pages chapters None) ! i
              = Saved (output_filename (number (chapters ! i))) (title (chapters ! i))
                  [p - 1..e - 1] p e"
      if within: "\<forall>c\<in>set chapters. 1 \<le> f c \<and> f c \<le> total_pages"
    proof -
      have api: "actual_pages chapters ! i = p"
        using i by (simp add: actual_pages_def p_def eq f_def)
      from 6 resolve_range_spec[OF assigned i, of total_pages]
      have spec: "spec_end_page total_pages (actual_pages chapters) i = e"
        by (simp add: eq)
      have pT: "p \<le> total_pages" using within i by (simp add: p_def eq)
      have eT: "e \<le> total_pages"
      proof (cases "Suc i < length chapters")
        case True
        then have "f (chapters ! Suc i) \<le> total_pages" using within by simp
        with e' True show ?thesis by simp
      next
        case False
        with e' show ?thesis by simp
      qed
      have pos: "\<forall>c\<in>set chapters. 1 \<le> the (actual_page c)"
        using within by (simp add: f_def)
      from split_unlimited_located[OF assigned pos, of total_pages] i api spec pT eT
      show ?thesis by (simp add: min_def)
    qed
    with eq e' show ?thesis by blast
  qed
  show ?thesis
    using 1 2 3 4 5 6 7 8 unfolding f_def by blast
qed

theorem boundary_resolver_ranges_witness:
  "sort_chapters
     [\<lparr>number = ''2.1'', title = ''Pins'', page = 9, level = 1, actual_page = Some 9\<rparr>,
      \<lparr>number = ''1.1'', title = ''Intro'', page = 5, level = 1, actual_page = Some 5\<rparr>,
      \<lparr>number = ''1.2'', title = ''Setup'', page = 5, level = 1, actual_page = Some 5\<rparr>,
      \<lparr>number = ''3.1'', title = ''Index'', page = 20, level = 1, actual_page = Some 20\<rparr>]
   = Inr [\<lparr>number = ''1.1'', title = ''Intro'', page = 5, level = 1, actual_page = Some 5\<rparr>,
          \<lparr>number = ''1.2'', title = ''Setup'', page = 5, level = 1, actual_page = Some 5\<rparr>,
          \<lparr>number = ''2.1'', title = ''Pins'', page = 9, level = 1, actual_page = Some 9\<rparr>,
          \<lparr>number = ''3.1'', title = ''Index'', page = 20, level = 1, actual_page = Some 20\<rparr>] \<and>
   resolve_range 30
     [\<lparr>number = ''1.1'', title = ''Intro'', page = 5, level = 1, actual_page = Some 5\<rparr>,
      \<lparr>number = ''1.2'', title = ''Setup'', page = 5, level = 1, actual_page = Some 5\<rparr>,
      \<lparr>number = ''2.1'', title = ''Pins'', page = 9, level = 1, actual_page = Some 9\<rparr>,
      \<lparr>number = ''3.1'', title = ''Index'', page = 20, level = 1, actual_page = Some 20\<rparr>] 0
   = Inr (4, 8) \<and>
   resolve_range 30
     [\<lparr>number = ''1.1'', title = ''Intro'', page = 5, level = 1, actual_page = Some 5\<rparr>,
      \<lparr>number = ''1.2'', title = ''Setup'', page = 5, level = 1, actual_page = Some 5\<rparr>,
      \<lparr>number = ''2.1'', title = ''Pins'', page = 9, level = 1, actual_page = Some 9\<rparr>,
      \<lparr>number = ''3.1'', title = ''Index'', page = 20, level = 1, actual_page = Some 20\<rparr>] 3
   = Inr (19, 30) \<and>
   sorted_wrt (<) (map (\<lambda>c. the (actual_page c))
     [\<lparr>number = ''1.1'', title = ''Intro'', page = 2, level = 1, actual_page = Some 2\<rparr>,
      \<lparr>number = ''1.2'', title = ''Setup'', page = 5, level = 1, actual_page = Some 5\<rparr>,
      \<lparr>number = ''2.1'', title = ''Pins'', page = 9, level = 1, actual_page = Some 9\<rparr>]) \<and>
   split_pdf_by_chapters 12
     [\<lparr>number = ''1.1'', title = ''Intro'', page = 2, level = 1, actual_page = Some 2\<rparr>,
      \<lparr>number = ''1.2'', title = ''Setup'', page = 5, level = 1, actual_page = Some 5\<rparr>,
      \<lparr>number = ''2.1'', title = ''Pins'', page = 9, level = 1, actual_page = Some 9\<rparr>] None
   = ([Saved ''micropython-docs1-1.pdf'' ''Intro'' [1, 2, 3] 2 4,
       Saved ''micropython-docs1-2.pdf'' ''Setup'' [4, 5, 6, 7] 5 8,
       Saved ''micropython-docs2-1.pdf'' ''Pins'' [8, 9, 10, 11] 9 12], None)"
proof -
  let ?chs = "[\<lparr>number = ''2.1'', title = ''Pins'', page = 9, level = 1, actual_page = Some 9\<rparr>,
      \<lparr>number = ''1.1'', title = ''Intro'', page = 5, level = 1, actual_page = Some 5\<rparr>,
      \<lparr>number = ''1.2'', title = ''Setup'', page = 5, level = 1, actual_page = Some 5\<rparr>,
      \<lparr>number = ''3.1'', title = ''Index'', page = 20, level = 1, actual_page = Some 20\<rparr>]"
  let ?inc = "[\<lparr>number = ''1.1'', title = ''Intro'', page = 2, level = 1, actual_page = Some 2\<rparr>,
      \<lparr>number = ''1.2'', title = ''Setup'', page = 5, level = 1, actual_page = Some 5\<rparr>,
      \<lparr>number = ''2.1'', title = ''Pins'', page = 9, level = 1, actual_page = Some 9\<rparr>]"
  have h1: "\<forall>c\<in>set ?chs. actual_page c \<noteq> None" by simp
  have h2: "0 < length ?chs" by simp
  have k1: "\<forall>c\<in>set ?inc. actual_page c \<noteq> None" by simp
  have k2: "1 < length ?inc" by simp
  have e: ?thesis by code_simp
  from boundary_resolver_ranges[OF h1 h2, of 30] boundary_resolver_ranges[OF k1 k2, of 12]
  show ?thesis by - (rule e)
qed

lemma spec_end_page_dup:
  assumes srt: "sorted aps" and ij: "i < j" and j: "j < length aps" and eq: "aps ! i = aps ! j"
  shows "spec_end_page T aps i = spec_end_page T aps j"
proof -
  have split: "[Suc i..<length aps] = [Suc i..<Suc j] @ [Suc j..<length aps]"
    using ij j by (metis Suc_leI Suc_le_mono less_imp_le_nat upt_add_eq_append le_add_diff_inverse)
  have "filter (\<lambda>k. aps ! k > aps ! i) [Suc i..<Suc j] = []"
  proof -
    have "\<not> aps ! k > aps ! i" if "k \<in> set [Suc i..<Suc j]" for k
    proof -
      from that have "k \<le> j" by auto
      then have "aps ! k \<le> aps ! j" using srt j by (simp add: sorted_iff_nth_mono)
      then show ?thesis using eq by simp
    qed
    then show ?thesis by (simp add: filter_empty_conv)
  qed
  then show ?thesis
    unfolding spec_end_page_def split by (simp add: eq)
qed

text \<open>
  C10, as the code has it. Let the chapters all have their page and be ordered by it, as
  \<^verbatim>\<open>main\<close> passes them, and let chapters \<open>i < j\<close> be on the same page \<open>p\<close>. Neither is dropped as
  a duplicate, and the resolver gives both the same range: start page \<open>p\<close> and the end page
  \<open>e\<close> of the boundary rule at \<open>i\<close> (one less than the next strictly greater page, or
  \<open>total_pages\<close>). When \<open>p\<close> is a page of the document, from 1 to \<open>total_pages\<close>, the splitter
  writes a file for each of the two, under its own chapter's name, and both files hold the
  same page indices, those of the pages \<open>p\<close> to \<open>min e total_pages\<close>. When \<open>p\<close> is beyond the
  document the splitter skips both as out of range and writes no file for them. In a run
  without a limit over chapters whose pages are all from 1 on, nothing is raised and these
  are the events at the positions \<open>i\<close> and \<open>j\<close>.
\<close>

theorem duplicate_pages_same_range:
  assumes asg: "\<forall>c\<in>set chs. actual_page c \<noteq> None"
    and srt: "sorted (actual_pages chs)"
    and ij: "i < j" and j: "j < length chs"
    and pi: "actual_page (chs ! i) = Some p" and pj: "actual_page (chs ! j) = Some p"
  shows "\<exists>e.
      e = spec_end_page T (actual_pages chs) i \<and>
      resolve_range T chs i = Inr (p - 1, e) \<and>
      resolve_range T chs j = Inr (p - 1, e) \<and>
      (1 \<le> p \<and> p \<le> T \<longrightarrow>
         split_chapter T chs i
           = Inr (Saved (output_filename (number (chs ! i))) (title (chs ! i))
                    [p - 1..min e T - 1] p (min e T)) \<and>
         split_chapter T chs j
           = Inr (Saved (output_filename (number (chs ! j))) (title (chs ! j))
                    [p - 1..min e T - 1] p (min e T))) \<and>
      (T < p \<longrightarrow>
         split_chapter T chs i = Inr (Skip_exceeds (number (chs ! i)) p) \<and>
         split_chapter T chs j = Inr (Skip_exceeds (number (chs ! j)) p)) \<and>
      ((\<forall>c\<in>set chs. 1 \<le> the (actual_page c)) \<longrightarrow>
         (\<exists>evs. split_pdf_by_chapters T chs None = (evs, None) \<and> length evs = length chs \<and>
                split_chapter T chs i = Inr (evs ! i) \<and>
                split_chapter T chs j = Inr (evs ! j)))"
proof -
  define aps where "aps = actual_pages chs"
  define e where "e = spec_end_page T aps i"
  have i: "i < length chs" using ij j by simp
  have api: "aps ! i = p" using pi i by (simp add: aps_def actual_pages_def)
  have apj: "aps ! j = p" using pj j by (simp add: aps_def actual_pages_def)
  have ej: "spec_end_page T aps j = e"
    unfolding e_def using spec_end_page_dup[of aps i j T] srt ij j api apj
    by (simp add: aps_def length_actual_pages)
  have ri: "resolve_range T chs i = Inr (p - 1, e)"
    using resolve_range_spec[OF asg i, of T] api by (simp add: aps_def e_def)
  have rj: "resolve_range T chs j = Inr (p - 1, e)"
    using resolve_range_spec[OF asg j, of T] apj ej by (simp add: aps_def)
  have si: "split_chapter T chs i = emit_chapter T (chs ! i) (p - 1) e"
    using ri by (simp add: split_chapter_def)
  have sj: "split_chapter T chs j = emit_chapter T (chs ! j) (p - 1) e"
    using rj by (simp add: split_chapter_def)
  have ge: "p \<le> e" if "p \<le> T"
    using spec_end_page_ge[of i aps T] i api that
    by (simp add: e_def aps_def length_actual_pages)
  have inside: "split_chapter T chs i
           = Inr (Saved (output_filename (number (chs ! i))) (title (chs ! i))
                    [p - 1..min e T - 1] p (min e T)) \<and>
         split_chapter T chs j
           = Inr (Saved (output_filename (number (chs ! j))) (title (chs ! j))
                    [p - 1..min e T - 1] p (min e T))" if "1 \<le> p \<and> p \<le> T"
    using that ge by (simp add: si sj emit_chapter_in_range)
  have beyond: "split_chapter T chs i = Inr (Skip_exceeds (number (chs ! i)) p) \<and>
         split_chapter T chs j = Inr (Skip_exceeds (number (chs ! j)) p)" if "T < p"
    using that by (simp add: si sj emit_chapter_beyond)
  have run: "\<exists>evs. split_pdf_by_chapters T chs None = (evs, None) \<and> length evs = length chs \<and>
                split_chapter T chs i = Inr (evs ! i) \<and>
                split_chapter T chs j = Inr (evs ! j)"
    if pos: "\<forall>c\<in>set chs. 1 \<le> the (actual_page c)"
  proof -
    have pk: "1 \<le> actual_pages chs ! k" if "k < length chs" for k
      using pos that by (simp add: actual_pages_def)
    from split_unlimited_located[OF asg pos, of T]
         split_chapter_located[OF asg i pk[OF i], of T]
         split_chapter_located[OF asg j pk[OF j], of T] i j
    show ?thesis by simp
  qed
  from ri rj inside beyond run show ?thesis unfolding e_def aps_def by blast
qed

theorem duplicate_pages_same_range_witness:
  "resolve_range 6
     [\<lparr>number = ''1.1'', title = ''Intro'', page = 1, level = 1, actual_page = Some 1\<rparr>,
      \<lparr>number = ''1.2'', title = ''Setup'', page = 2, level = 1, actual_page = Some 1\<rparr>,
      \<lparr>number = ''2.1'', title = ''Pins'', page = 4, level = 1, actual_page = Some 4\<rparr>] 1
     = Inr (0, 3) \<and>
   split_pdf_by_chapters 6
     [\<lparr>number = ''1.1'', title = ''Intro'', page = 1, level = 1, actual_page = Some 1\<rparr>,
      \<lparr>number = ''1.2'', title = ''Setup'', page = 2, level = 1, actual_page = Some 1\<rparr>,
      \<lparr>number = ''2.1'', title = ''Pins'', page = 4, level = 1, actual_page = Some 4\<rparr>] None
     = ([Saved ''micropython-docs1-1.pdf'' ''Intro'' [0, 1, 2] 1 3,
         Saved ''micropython-docs1-2.pdf'' ''Setup'' [0, 1, 2] 1 3,
         Saved ''micropython-docs2-1.pdf'' ''Pins'' [3, 4, 5] 4 6], None)"
proof -
  let ?chs = "[\<lparr>number = ''1.1'', title = ''Intro'', page = 1, level = 1, actual_page = Some 1\<rparr>,
      \<lparr>number = ''1.2'', title = ''Setup'', page = 2, level = 1, actual_page = Some 1\<rparr>,
      \<lparr>number = ''2.1'', title = ''Pins'', page = 4, level = 1, actual_page = Some 4\<rparr>]"
  have h1: "\<forall>c\<in>set ?chs. actual_page c \<noteq> None" by simp
  have h2: "sorted (actual_pages ?chs)" by (simp add: actual_pages_def)
  have h3: "(0::nat) < 1" by simp
  have h4: "1 < length ?chs" by simp
  have h5: "actual_page (?chs ! 0) = Some 1" by simp
  have h6: "actual_page (?chs ! 1) = Some 1" by simp
  have e: ?thesis by code_simp
  from duplicate_pages_same_range[OF h1 h2 h3 h4 h5 h6, of 6] show ?thesis by - (rule e)
qed

text \<open>
  Two chapters on page 50 of a document of 10 pages: both get the range 50 to 10, both are
  skipped as out of range, and no file is written.
\<close>

theorem duplicate_pages_beyond_document:
  "resolve_range 10
     [\<lparr>number = ''9.1'', title = ''Index'', page = 50, level = 1, actual_page = Some 50\<rparr>,
      \<lparr>number = ''9.2'', title = ''Notes'', page = 50, level = 1, actual_page = Some 50\<rparr>] 0
     = Inr (49, 10) \<and>
   resolve_range 10
     [\<lparr>number = ''9.1'', title = ''Index'', page = 50, level = 1, actual_page = Some 50\<rparr>,
      \<lparr>number = ''9.2'', title = ''Notes'', page = 50, level = 1, actual_page = Some 50\<rparr>] 1
     = Inr (49, 10) \<and>
   split_pdf_by_chapters 10
     [\<lparr>number = ''9.1'', title = ''Index'', page = 50, level = 1, actual_page = Some 50\<rparr>,
      \<lparr>number = ''9.2'', title = ''Notes'', page = 50, level = 1, actual_page = Some 50\<rparr>] None
     = ([Skip_exceeds ''9.1'' 50, Skip_exceeds ''9.2'' 50], None)"
  by code_simp

section \<open>Validation of a range\<close>

lemma find_end_page_bound:
  "find_end_page T p cs = Inr e \<Longrightarrow> e = T \<or> p \<le> e"
  by (induction cs) (auto split: option.splits if_splits)

lemma split_chapter_event:
  assumes "split_chapter T chs i = Inr ev"
  shows "ev \<noteq> Skip_invalid n a b"
proof -
  from assms obtain p e where p: "actual_page (chs ! i) = Some p"
    and e: "find_end_page T p (drop (Suc i) chs) = Inr e"
    and ev: "emit_chapter T (chs ! i) (p - 1) e = Inr ev"
    by (auto simp: split_chapter_def resolve_range_def split: option.splits sum.splits)
  from find_end_page_bound[OF e] ev show ?thesis
    by (auto simp: emit_chapter_cases split: if_splits)
qed

lemma split_loop_events:
  "Skip_invalid n a b \<notin> set (fst (split_loop T chs is))"
proof (induction "is")
  case Nil
  show ?case by simp
next
  case (Cons i rest)
  show ?case
  proof (cases "split_chapter T chs i")
    case (Inl err)
    then show ?thesis by simp
  next
    case (Inr ev)
    with Cons split_chapter_event[OF Inr, of n a b] show ?thesis
      by (cases "split_loop T chs rest") auto
  qed
qed

text \<open>
  C4, as the code has it. The check of line 246 compares the 0-based start index with the
  end page, so it rejects a range only when the start page is strictly after the end page:
  for a chapter that is not out of range, the validation step (lines 238-268) answers with
  the invalid-range warning and no file when \<open>end < start_page + 1\<close> (end page clipped to
  \<open>total_pages\<close>). Otherwise, also when start page and end page are the same page, it goes on
  to copy the pages: it writes the file when the start index is one the page list has,
  \<open>start_page \<ge> - total_pages\<close>, as every start page from 1 on is, and raises \<^verbatim>\<open>IndexError\<close>
  without writing when it is below. A warning does not stop the loop: the remaining
  chapters are processed after it. In a run the invalid-range warning never appears,
  because the resolver never returns an end page before the start page of a chapter inside
  the document.
\<close>

theorem degenerate_range_check:
  assumes "start_page < total_pages"
  shows "(min end_page total_pages < start_page + 1 \<longrightarrow>
            emit_chapter total_pages ch start_page end_page
              = Inr (Skip_invalid (number ch) (start_page + 1) (min end_page total_pages))) \<and>
         (start_page + 1 \<le> min end_page total_pages \<and> - total_pages \<le> start_page \<longrightarrow>
            emit_chapter total_pages ch start_page end_page
              = Inr (Saved (output_filename (number ch)) (title ch)
                       [start_page..min end_page total_pages - 1]
                       (start_page + 1) (min end_page total_pages))) \<and>
         (start_page + 1 \<le> min end_page total_pages \<and> start_page < - total_pages \<longrightarrow>
            emit_chapter total_pages ch start_page end_page = Inl IndexError) \<and>
         (\<forall>ev. split_chapter total_pages chs i = Inr ev \<longrightarrow>
            split_loop total_pages chs (i # rest)
              = (ev # fst (split_loop total_pages chs rest),
                 snd (split_loop total_pages chs rest))) \<and>
         Skip_invalid n a b \<notin> set (fst (split_pdf_by_chapters total_pages chs max_files))"
proof -
  have "\<forall>ev. split_chapter total_pages chs i = Inr ev \<longrightarrow>
            split_loop total_pages chs (i # rest)
              = (ev # fst (split_loop total_pages chs rest),
                 snd (split_loop total_pages chs rest))"
    by (simp split: prod.splits)
  moreover have "Skip_invalid n a b \<notin> set (fst (split_pdf_by_chapters total_pages chs max_files))"
    by (simp add: split_pdf_by_chapters_def Let_def split_loop_events)
  ultimately show ?thesis using assms by (auto simp: emit_chapter_cases)
qed

theorem degenerate_range_check_witness:
  "emit_chapter 10
     \<lparr>number = ''1.1'', title = ''Intro'', page = 6, level = 1, actual_page = Some 6\<rparr> 5 3
     = Inr (Skip_invalid ''1.1'' 6 3) \<and>
   emit_chapter 10
     \<lparr>number = ''1.1'', title = ''Intro'', page = 6, level = 1, actual_page = Some 6\<rparr> 5 6
     = Inr (Saved ''micropython-docs1-1.pdf'' ''Intro'' [5] 6 6) \<and>
   emit_chapter 1
     \<lparr>number = ''3.3'', title = ''V on pin'', page = - 19, level = 1, actual_page = Some (- 19)\<rparr>
     (- 20) 0
     = Inl IndexError \<and>
   split_loop 10
     [\<lparr>number = ''1.1'', title = ''Intro'', page = 12, level = 1, actual_page = Some 12\<rparr>,
      \<lparr>number = ''1.2'', title = ''Setup'', page = 3, level = 1, actual_page = Some 3\<rparr>] [0, 1]
     = ([Skip_exceeds ''1.1'' 12, Saved ''micropython-docs1-2.pdf'' ''Setup'' [2, 3, 4, 5, 6, 7, 8, 9] 3 10],
        None)"
proof -
  have h: "(5::int) < 10" by simp
  have h': "(- 20::int) < 1" by simp
  have e: ?thesis by code_simp
  from degenerate_range_check
         [OF h, where end_page = 3
            and ch = "\<lparr>number = ''1.1'', title = ''Intro'', page = 6, level = 1, actual_page = Some 6\<rparr>"]
       degenerate_range_check
         [OF h, where end_page = 6
            and ch = "\<lparr>number = ''1.1'', title = ''Intro'', page = 6, level = 1, actual_page = Some 6\<rparr>"
            and chs = "[\<lparr>number = ''1.1'', title = ''Intro'', page = 12, level = 1, actual_page = Some 12\<rparr>,
                        \<lparr>number = ''1.2'', title = ''Setup'', page = 3, level = 1, actual_page = Some 3\<rparr>]"
            and i = 0 and rest = "[1]"]
       degenerate_range_check
         [OF h', where end_page = 0
            and ch = "\<lparr>number = ''3.3'', title = ''V on pin'', page = - 19, level = 1,
                        actual_page = Some (- 19)\<rparr>"]
  show ?thesis by - (rule e)
qed

text \<open>
  Two chapters on the pages 5 and 6 of a document of 10 pages: the first has the range 5 to
  5, start page equal to end page, and is written as a file of one page, index 4.
\<close>

theorem single_page_range_kept:
  "resolve_range 10
     [\<lparr>number = ''1.1'', title = ''Intro'', page = 5, level = 1, actual_page = Some 5\<rparr>,
      \<lparr>number = ''1.2'', title = ''Setup'', page = 6, level = 1, actual_page = Some 6\<rparr>] 0
     = Inr (4, 5) \<and>
   split_pdf_by_chapters 10
     [\<lparr>number = ''1.1'', title = ''Intro'', page = 5, level = 1, actual_page = Some 5\<rparr>,
      \<lparr>number = ''1.2'', title = ''Setup'', page = 6, level = 1, actual_page = Some 6\<rparr>] None
     = ([Saved ''micropython-docs1-1.pdf'' ''Intro'' [4] 5 5,
         Saved ''micropython-docs1-2.pdf'' ''Setup'' [5, 6, 7, 8, 9] 6 10], None)"
  by code_simp

section \<open>The listing of \<^verbatim>\<open>--show\<close> against the splitter\<close>

lemma py_index_first:
  "x \<in> set xs \<Longrightarrow>
     \<exists>k. py_index xs x = Some k \<and> k < length xs \<and> xs ! k = x \<and> (\<forall>m<k. xs ! m \<noteq> x)"
proof (induction xs)
  case Nil
  then show ?case by simp
next
  case (Cons y ys)
  show ?case
  proof (cases "y = x")
    case True
    then show ?thesis by simp
  next
    case False
    with Cons obtain k where k: "py_index ys x = Some k" "k < length ys" "ys ! k = x"
        "\<forall>m<k. ys ! m \<noteq> x" by auto
    have "\<forall>m<Suc k. (y # ys) ! m \<noteq> x"
      using k(4) False by (auto simp: nth_Cons split: nat.splits)
    with k False show ?thesis by simp
  qed
qed

text \<open>
  C2, on the code, at two chapters on the pages 5 and 50 of a document of 10 pages, with no
  limit. The listing of \<^verbatim>\<open>--show\<close> repeats the resolver loop of the splitter but has none of
  its validation (lines 239-248): it shows both chapters, the first with the pages 5 to 49
  and the second with the pages 50 to 10, a count of -39 pages, and an output name. The
  splitter on the same chapters clips the first to the pages 5 to 10 and skips the second
  as out of range, so the file the listing names for it is never written.
\<close>

theorem preview_lists_dropped_chapter:
  "show_only 10
     [\<lparr>number = ''1.1'', title = ''Intro'', page = 5, level = 1, actual_page = Some 5\<rparr>,
      \<lparr>number = ''9.1'', title = ''Index'', page = 50, level = 1, actual_page = Some 50\<rparr>] None
     = ([Row ''1.1'' ''Intro'' 5 49 45 ''micropython-docs1-1.pdf'',
         Row ''9.1'' ''Index'' 50 10 (- 39) ''micropython-docs9-1.pdf''], None) \<and>
   split_pdf_by_chapters 10
     [\<lparr>number = ''1.1'', title = ''Intro'', page = 5, level = 1, actual_page = Some 5\<rparr>,
      \<lparr>number = ''9.1'', title = ''Index'', page = 50, level = 1, actual_page = Some 50\<rparr>] None
     = ([Saved ''micropython-docs1-1.pdf'' ''Intro'' [4, 5, 6, 7, 8, 9] 5 10,
         Skip_exceeds ''9.1'' 50], None)"
  by code_simp

section \<open>The limit \<^verbatim>\<open>--max-files\<close>\<close>

text \<open>
  C3, on the code, at three chapters on pages 2, 5 and 9 of a document of 12 pages and a
  limit of 2. \<^verbatim>\<open>split_pdf_by_chapters\<close> cuts the list before it resolves the ranges, so the
  second chapter finds no later chapter and runs to the last page, 5 to 12. Without the
  limit its range is 5 to 8, and the listing of \<^verbatim>\<open>--show\<close> with the same limit, which looks
  at all chapters (line 351), also says 5 to 8.
\<close>

theorem limit_truncates_before_resolution:
  "split_pdf_by_chapters 12
     [\<lparr>number = ''1.1'', title = ''Intro'', page = 2, level = 1, actual_page = Some 2\<rparr>,
      \<lparr>number = ''1.2'', title = ''Setup'', page = 5, level = 1, actual_page = Some 5\<rparr>,
      \<lparr>number = ''2.1'', title = ''Pins'', page = 9, level = 1, actual_page = Some 9\<rparr>] (Some 2)
     = ([Saved ''micropython-docs1-1.pdf'' ''Intro'' [1, 2, 3] 2 4,
         Saved ''micropython-docs1-2.pdf'' ''Setup'' [4, 5, 6, 7, 8, 9, 10, 11] 5 12], None) \<and>
   split_pdf_by_chapters 12
     [\<lparr>number = ''1.1'', title = ''Intro'', page = 2, level = 1, actual_page = Some 2\<rparr>,
      \<lparr>number = ''1.2'', title = ''Setup'', page = 5, level = 1, actual_page = Some 5\<rparr>,
      \<lparr>number = ''2.1'', title = ''Pins'', page = 9, level = 1, actual_page = Some 9\<rparr>] None
     = ([Saved ''micropython-docs1-1.pdf'' ''Intro'' [1, 2, 3] 2 4,
         Saved ''micropython-docs1-2.pdf'' ''Setup'' [4, 5, 6, 7] 5 8,
         Saved ''micropython-docs2-1.pdf'' ''Pins'' [8, 9, 10, 11] 9 12], None) \<and>
   show_only 12
     [\<lparr>number = ''1.1'', title = ''Intro'', page = 2, level = 1, actual_page = Some 2\<rparr>,
      \<lparr>number = ''1.2'', title = ''Setup'', page = 5, level = 1, actual_page = Some 5\<rparr>,
      \<lparr>number = ''2.1'', title = ''Pins'', page = 9, level = 1, actual_page = Some 9\<rparr>] (Some 2)
     = ([Row ''1.1'' ''Intro'' 2 4 3 ''micropython-docs1-1.pdf'',
         Row ''1.2'' ''Setup'' 5 8 4 ''micropython-docs1-2.pdf''], None)"
  by code_simp

section \<open>The scored searches\<close>

text \<open>
  Both searches run the same loop: a page without text is passed over, and a page replaces
  the best one only on a strictly greater score. For any loop of that shape, the result is
  either the initial state, or a page of the window that has the final score, with every
  page scanned before it scoring strictly less and no page scoring more.
\<close>

lemma scan_best_generic:
  fixes scan :: "nat list \<Rightarrow> 'a option \<times> int \<Rightarrow> 'a option \<times> int"
    and sc :: "nat \<Rightarrow> int option" and mk :: "nat \<Rightarrow> 'a"
  assumes nil: "\<And>best. scan [] best = best"
    and cons: "\<And>i rest bp bs. scan (i # rest) (bp, bs) =
        (case sc i of
           None \<Rightarrow> scan rest (bp, bs)
         | Some v \<Rightarrow> if v > bs then scan rest (Some (mk i), v) else scan rest (bp, bs))"
    and res: "scan is (bp0, s0) = (bp, s)"
  shows "s0 \<le> s \<and> (\<forall>i\<in>set is. \<forall>v. sc i = Some v \<longrightarrow> v \<le> s) \<and>
     ((bp = bp0 \<and> s = s0) \<or>
      (\<exists>k<length is. bp = Some (mk (is ! k)) \<and> sc (is ! k) = Some s \<and> s0 < s \<and>
          (\<forall>m<k. \<forall>w. sc (is ! m) = Some w \<longrightarrow> w < s)))"
  using res
proof (induction "is" arbitrary: bp0 s0)
  case Nil
  then show ?case by (simp add: nil)
next
  case (Cons i rest)
  let ?found = "\<lambda>js s0. \<exists>k<length js. bp = Some (mk (js ! k)) \<and> sc (js ! k) = Some s \<and> s0 < s \<and>
          (\<forall>m<k. \<forall>w. sc (js ! m) = Some w \<longrightarrow> w < s)"
  have shift: "?found (i # rest) s0"
    if "?found rest s1" and "s0 \<le> s1" and "\<forall>w. sc i = Some w \<longrightarrow> w \<le> s1" for s1
  proof -
    from that(1) obtain k where k: "k < length rest" "bp = Some (mk (rest ! k))"
        "sc (rest ! k) = Some s" "s1 < s" "\<forall>m<k. \<forall>w. sc (rest ! m) = Some w \<longrightarrow> w < s"
      by blast
    have "\<forall>m<Suc k. \<forall>w. sc ((i # rest) ! m) = Some w \<longrightarrow> w < s"
      using k(4,5) that(3) by (auto simp: nth_Cons split: nat.splits)
    with k that(2) show ?thesis
      by (intro exI[of _ "Suc k"]) auto
  qed
  show ?case
  proof (cases "sc i")
    case None
    with Cons.prems have "scan rest (bp0, s0) = (bp, s)" by (simp add: cons)
    from Cons.IH[OF this] shift[of s0] None show ?thesis by auto
  next
    case (Some v)
    show ?thesis
    proof (cases "v > s0")
      case True
      with Cons.prems Some have "scan rest (Some (mk i), v) = (bp, s)" by (simp add: cons)
      from Cons.IH[OF this] have ih: "v \<le> s" "\<forall>j\<in>set rest. \<forall>w. sc j = Some w \<longrightarrow> w \<le> s"
        "(bp = Some (mk i) \<and> s = v) \<or> ?found rest v" by auto
      from ih(3) have "?found (i # rest) s0"
      proof
        assume "bp = Some (mk i) \<and> s = v"
        with Some True show ?thesis by (intro exI[of _ 0]) auto
      next
        assume "?found rest v"
        then show ?thesis using shift[of v] True Some by auto
      qed
      with ih True Some show ?thesis by auto
    next
      case False
      with Cons.prems Some have "scan rest (bp0, s0) = (bp, s)" by (simp add: cons)
      from Cons.IH[OF this] shift[of s0] Some False show ?thesis by auto
    qed
  qed
qed


lemma scan_best_window:
  fixes scan :: "nat list \<Rightarrow> 'a option \<times> int \<Rightarrow> 'a option \<times> int"
    and sc :: "nat \<Rightarrow> int option" and mk :: "nat \<Rightarrow> 'a"
  assumes nil: "\<And>best. scan [] best = best"
    and cons: "\<And>i rest bp bs. scan (i # rest) (bp, bs) =
        (case sc i of
           None \<Rightarrow> scan rest (bp, bs)
         | Some v \<Rightarrow> if v > bs then scan rest (Some (mk i), v) else scan rest (bp, bs))"
    and res: "scan [lo..<hi] (None, 0) = (bp, s)"
  shows "(\<forall>i\<in>set [lo..<hi]. \<forall>v. sc i = Some v \<longrightarrow> v \<le> s) \<and>
     ((bp = None \<and> s = 0) \<or>
      (\<exists>b\<in>set [lo..<hi]. bp = Some (mk b) \<and> sc b = Some s \<and> 0 < s \<and>
          (\<forall>i\<in>set [lo..<hi]. i < b \<longrightarrow> (\<forall>w. sc i = Some w \<longrightarrow> w < s))))"
proof -
  note g = scan_best_generic[where scan = scan and sc = sc and mk = mk, OF nil cons res]
  from g have le: "\<forall>i\<in>set [lo..<hi]. \<forall>v. sc i = Some v \<longrightarrow> v \<le> s" by blast
  from g have "(bp = None \<and> s = 0) \<or>
      (\<exists>k<length [lo..<hi]. bp = Some (mk ([lo..<hi] ! k)) \<and> sc ([lo..<hi] ! k) = Some s \<and> 0 < s \<and>
          (\<forall>m<k. \<forall>w. sc ([lo..<hi] ! m) = Some w \<longrightarrow> w < s))" by blast
  then show ?thesis
  proof
    assume "bp = None \<and> s = 0"
    with le show ?thesis by blast
  next
    assume "\<exists>k<length [lo..<hi]. bp = Some (mk ([lo..<hi] ! k)) \<and> sc ([lo..<hi] ! k) = Some s \<and> 0 < s \<and>
          (\<forall>m<k. \<forall>w. sc ([lo..<hi] ! m) = Some w \<longrightarrow> w < s)"
    then obtain k where k: "k < hi - lo" "bp = Some (mk (lo + k))" "sc (lo + k) = Some s" "0 < s"
        "\<forall>m<k. \<forall>w. sc ([lo..<hi] ! m) = Some w \<longrightarrow> w < s"
      by auto
    have "\<forall>w. sc i = Some w \<longrightarrow> w < s" if "i \<in> set [lo..<hi]" "i < lo + k" for i
    proof -
      from that have m: "i - lo < k" "lo + (i - lo) = i" "lo + (i - lo) < hi" by auto
      then have "[lo..<hi] ! (i - lo) = i" by (metis nth_upt)
      with k(5) m(1) show ?thesis by metis
    qed
    moreover have "lo + k \<in> set [lo..<hi]" using k(1) by auto
    ultimately show ?thesis using le k(2,3,4) by blast
  qed
qed

lemma offset_scan_window:
  assumes "offset_scan pdf n t [lo..<hi] (None, 0) = (bp, s)"
  shows "(\<forall>i\<in>set [lo..<hi]. \<forall>x. page_text pdf i = Some x \<longrightarrow> offset_page_score n t x \<le> s) \<and>
     ((bp = None \<and> s = 0) \<or>
      (\<exists>b\<in>set [lo..<hi]. bp = Some b \<and> 0 < s \<and>
          (\<exists>x. page_text pdf b = Some x \<and> offset_page_score n t x = s) \<and>
          (\<forall>i\<in>set [lo..<hi]. i < b \<longrightarrow>
             (\<forall>y. page_text pdf i = Some y \<longrightarrow> offset_page_score n t y < s))))"
proof -
  have "(\<forall>i\<in>set [lo..<hi]. \<forall>v. map_option (offset_page_score n t) (page_text pdf i) = Some v \<longrightarrow> v \<le> s) \<and>
     ((bp = None \<and> s = 0) \<or>
      (\<exists>b\<in>set [lo..<hi]. bp = Some b \<and>
          map_option (offset_page_score n t) (page_text pdf b) = Some s \<and> 0 < s \<and>
          (\<forall>i\<in>set [lo..<hi]. i < b \<longrightarrow>
             (\<forall>w. map_option (offset_page_score n t) (page_text pdf i) = Some w \<longrightarrow> w < s))))"
    by (rule scan_best_window[where scan = "offset_scan pdf n t" and mk = "\<lambda>i. i", OF _ _ assms])
       (simp_all add: Let_def split: option.splits)
  then show ?thesis by (simp add: map_option_case split: option.splits) blast
qed

lemma locate_scan_window:
  assumes "locate_scan pdf n t [lo..<hi] (None, 0) = (bp, s)"
  shows "(\<forall>i\<in>set [lo..<hi]. \<forall>x. page_text pdf i = Some x \<longrightarrow>
            locate_lines_score n t (split_lines x) \<le> s) \<and>
     ((bp = None \<and> s = 0) \<or>
      (\<exists>b\<in>set [lo..<hi]. bp = Some (int b + 1) \<and> 0 < s \<and>
          (\<exists>x. page_text pdf b = Some x \<and> locate_lines_score n t (split_lines x) = s) \<and>
          (\<forall>i\<in>set [lo..<hi]. i < b \<longrightarrow>
             (\<forall>y. page_text pdf i = Some y \<longrightarrow> locate_lines_score n t (split_lines y) < s))))"
proof -
  have "(\<forall>i\<in>set [lo..<hi]. \<forall>v. map_option (\<lambda>x. locate_lines_score n t (split_lines x)) (page_text pdf i) = Some v \<longrightarrow> v \<le> s) \<and>
     ((bp = None \<and> s = 0) \<or>
      (\<exists>b\<in>set [lo..<hi]. bp = Some (int b + 1) \<and>
          map_option (\<lambda>x. locate_lines_score n t (split_lines x)) (page_text pdf b) = Some s \<and> 0 < s \<and>
          (\<forall>i\<in>set [lo..<hi]. i < b \<longrightarrow>
             (\<forall>w. map_option (\<lambda>x. locate_lines_score n t (split_lines x)) (page_text pdf i) = Some w \<longrightarrow> w < s))))"
    by (rule scan_best_window[where scan = "locate_scan pdf n t" and mk = "\<lambda>i. int i + 1", OF _ _ assms])
       (simp_all add: Let_def split: option.splits)
  then show ?thesis by (simp add: map_option_case split: option.splits) blast
qed

lemma search_window_upt:
  "search_window pdf tp behind ahead =
     [nat (max 0 (tp - behind))..<nat (min (int (length pdf)) (tp + ahead))]"
  by (simp add: search_window_def Let_def)

lemma search_window_in_document:
  "i \<in> set (search_window pdf tp behind ahead) \<Longrightarrow> i < length pdf"
  by (auto simp: search_window_upt)

lemma offset_scan_search:
  assumes "offset_scan pdf n t (search_window pdf tp behind ahead) (None, 0) = (bp, s)"
  shows "(\<forall>i\<in>set (search_window pdf tp behind ahead).
            \<forall>x. page_text pdf i = Some x \<longrightarrow> offset_page_score n t x \<le> s) \<and>
     ((bp = None \<and> s = 0) \<or>
      (\<exists>b\<in>set (search_window pdf tp behind ahead). bp = Some b \<and> 0 < s \<and>
          (\<exists>x. page_text pdf b = Some x \<and> offset_page_score n t x = s) \<and>
          (\<forall>i\<in>set (search_window pdf tp behind ahead). i < b \<longrightarrow>
             (\<forall>y. page_text pdf i = Some y \<longrightarrow> offset_page_score n t y < s))))"
  using assms unfolding search_window_upt by (rule offset_scan_window)

lemma locate_scan_search:
  assumes "locate_scan pdf n t (search_window pdf tp behind ahead) (None, 0) = (bp, s)"
  shows "(\<forall>i\<in>set (search_window pdf tp behind ahead).
            \<forall>x. page_text pdf i = Some x \<longrightarrow> locate_lines_score n t (split_lines x) \<le> s) \<and>
     ((bp = None \<and> s = 0) \<or>
      (\<exists>b\<in>set (search_window pdf tp behind ahead). bp = Some (int b + 1) \<and> 0 < s \<and>
          (\<exists>x. page_text pdf b = Some x \<and> locate_lines_score n t (split_lines x) = s) \<and>
          (\<forall>i\<in>set (search_window pdf tp behind ahead). i < b \<longrightarrow>
             (\<forall>y. page_text pdf i = Some y \<longrightarrow> locate_lines_score n t (split_lines y) < s))))"
  using assms unfolding search_window_upt by (rule locate_scan_window)

text \<open>
  C8. In the offset detector, when the loop over the window \<open>[toc_page - 20, toc_page + 30)\<close>
  ends with the best page \<open>b\<close> and the best score \<open>s\<close>, then \<open>b\<close> is a page of the window with
  text whose score is \<open>s\<close>, no page of the window scores more, and every page of the window
  that also scores \<open>s\<close> has an index \<open>\<ge> b\<close>: of the pages with the top score the first one
  scanned is selected. The same holds in the chapter locator for its window
  \<open>[toc_page - 5, toc_page + 15)\<close>, where the best page is kept 1-based, \<open>b + 1\<close>.
\<close>

theorem tie_break_first_page:
  "(offset_scan pdf n t (search_window pdf tp 20 30) (None, 0) = (Some b, s) \<longrightarrow>
      b \<in> set (search_window pdf tp 20 30) \<and>
      (\<exists>x. page_text pdf b = Some x \<and> offset_page_score n t x = s) \<and>
      (\<forall>i\<in>set (search_window pdf tp 20 30). \<forall>y. page_text pdf i = Some y \<longrightarrow>
          offset_page_score n t y \<le> s \<and> (offset_page_score n t y = s \<longrightarrow> b \<le> i))) \<and>
   (locate_scan pdf n t (search_window pdf tp 5 15) (None, 0) = (Some p, s') \<longrightarrow>
      (\<exists>b'\<in>set (search_window pdf tp 5 15). p = int b' + 1 \<and>
          (\<exists>x. page_text pdf b' = Some x \<and> locate_lines_score n t (split_lines x) = s') \<and>
          (\<forall>i\<in>set (search_window pdf tp 5 15). \<forall>y. page_text pdf i = Some y \<longrightarrow>
              locate_lines_score n t (split_lines y) \<le> s' \<and>
              (locate_lines_score n t (split_lines y) = s' \<longrightarrow> b' \<le> i))))"
proof (intro conjI impI)
  assume a: "offset_scan pdf n t (search_window pdf tp 20 30) (None, 0) = (Some b, s)"
  note r = offset_scan_search[OF a]
  from r show "b \<in> set (search_window pdf tp 20 30)" by auto
  from r show "\<exists>x. page_text pdf b = Some x \<and> offset_page_score n t x = s" by auto
  from r have first: "\<forall>i\<in>set (search_window pdf tp 20 30). i < b \<longrightarrow>
             (\<forall>y. page_text pdf i = Some y \<longrightarrow> offset_page_score n t y < s)" by auto
  show "\<forall>i\<in>set (search_window pdf tp 20 30). \<forall>y. page_text pdf i = Some y \<longrightarrow>
          offset_page_score n t y \<le> s \<and> (offset_page_score n t y = s \<longrightarrow> b \<le> i)"
  proof (intro ballI allI impI conjI)
    fix i y assume i: "i \<in> set (search_window pdf tp 20 30)" and y: "page_text pdf i = Some y"
    from r i y show "offset_page_score n t y \<le> s" by blast
    assume "offset_page_score n t y = s"
    with first i y have "\<not> i < b" by fastforce
    then show "b \<le> i" by simp
  qed
next
  assume a: "locate_scan pdf n t (search_window pdf tp 5 15) (None, 0) = (Some p, s')"
  note r = locate_scan_search[OF a]
  from r obtain b' where b': "b' \<in> set (search_window pdf tp 5 15)" "p = int b' + 1"
      "\<exists>x. page_text pdf b' = Some x \<and> locate_lines_score n t (split_lines x) = s'"
      "\<forall>i\<in>set (search_window pdf tp 5 15). i < b' \<longrightarrow>
             (\<forall>y. page_text pdf i = Some y \<longrightarrow> locate_lines_score n t (split_lines y) < s')"
    by auto
  have "\<forall>i\<in>set (search_window pdf tp 5 15). \<forall>y. page_text pdf i = Some y \<longrightarrow>
              locate_lines_score n t (split_lines y) \<le> s' \<and>
              (locate_lines_score n t (split_lines y) = s' \<longrightarrow> b' \<le> i)"
  proof (intro ballI allI impI conjI)
    fix i y assume i: "i \<in> set (search_window pdf tp 5 15)" and y: "page_text pdf i = Some y"
    from r i y show "locate_lines_score n t (split_lines y) \<le> s'" by blast
    assume "locate_lines_score n t (split_lines y) = s'"
    with b'(4) i y have "\<not> i < b'" by fastforce
    then show "b' \<le> i" by simp
  qed
  with b' show "\<exists>b'\<in>set (search_window pdf tp 5 15). p = int b' + 1 \<and>
          (\<exists>x. page_text pdf b' = Some x \<and> locate_lines_score n t (split_lines x) = s') \<and>
          (\<forall>i\<in>set (search_window pdf tp 5 15). \<forall>y. page_text pdf i = Some y \<longrightarrow>
              locate_lines_score n t (split_lines y) \<le> s' \<and>
              (locate_lines_score n t (split_lines y) = s' \<longrightarrow> b' \<le> i))"
    by blast
qed

theorem tie_break_first_page_witness:
  "offset_scan [Some ''1.1 Intro'', Some ''x'', Some ''1.1 Intro''] ''1.1'' ''Intro''
     (search_window [Some ''1.1 Intro'', Some ''x'', Some ''1.1 Intro''] 2 20 30) (None, 0)
     = (Some 0, 80) \<and>
   search_window [Some ''1.1 Intro'', Some ''x'', Some ''1.1 Intro''] 2 20 30 = [0, 1, 2] \<and>
   offset_page_score ''1.1'' ''Intro'' ''1.1 Intro'' = 80 \<and>
   locate_scan [Some ''1.1 Intro'', Some ''x'', Some ''1.1 Intro''] ''1.1'' ''Intro''
     (search_window [Some ''1.1 Intro'', Some ''x'', Some ''1.1 Intro''] 2 5 15) (None, 0)
     = (Some 1, 150) \<and>
   locate_lines_score ''1.1'' ''Intro'' (split_lines ''1.1 Intro'') = 150"
proof -
  have e: ?thesis by code_simp
  from tie_break_first_page
    [of "[Some ''1.1 Intro'', Some ''x'', Some ''1.1 Intro'']" "''1.1''" "''Intro''" 2 0 80 1 150]
  show ?thesis by - (rule e)
qed

section \<open>The pipeline after the searches\<close>

lemma locate_chapter_page:
  "\<exists>v ms. locate_chapter pdf c = (c\<lparr>actual_page := Some v\<rparr>, ms)"
  by (auto simp: locate_chapter_def Let_def split: prod.splits option.splits)

lemma find_chapter_actual_pages_map:
  "find_chapter_actual_pages pdf chs =
     (map (\<lambda>c. fst (locate_chapter pdf c)) chs, concat (map (\<lambda>c. snd (locate_chapter pdf c)) chs))"
  by (induction chs) (auto split: prod.splits)

lemma located_assigned:
  "\<forall>c\<in>set (fst (find_chapter_actual_pages pdf chs)). actual_page c \<noteq> None"
proof -
  have "actual_page (fst (locate_chapter pdf c)) \<noteq> None" for c
    using locate_chapter_page[of pdf c] by auto
  then show ?thesis by (simp add: find_chapter_actual_pages_map)
qed

lemma page_offset_zero: "c\<lparr>page := page c + 0\<rparr> = (c::chapter_dict)"
  by simp

lemma main_run:
  assumes "extract_toc_from_pdf pdf = c # cs"
  shows "\<exists>adjusted srt k.
      sort_chapters (fst (find_chapter_actual_pages pdf adjusted)) = Inr srt \<and>
      main pdf sf mf =
        (snd (auto_detect_page_offset pdf (c # cs)) @ snd (find_chapter_actual_pages pdf adjusted),
         if sf then Shown (show_only (int (length pdf)) srt mf)
         else Extracted (split_pdf_by_chapters (int (length pdf)) srt mf) k)"
proof -
  obtain off ms1 where d: "auto_detect_page_offset pdf (c # cs) = (off, ms1)"
    by (cases "auto_detect_page_offset pdf (c # cs)")
  define adjusted where "adjusted =
    (if off \<noteq> 0 then map (\<lambda>x. x\<lparr>page := page x + off\<rparr>) (c # cs) else c # cs)"
  obtain located ms2 where l: "find_chapter_actual_pages pdf adjusted = (located, ms2)"
    by (cases "find_chapter_actual_pages pdf adjusted")
  have "\<forall>x\<in>set located. actual_page x \<noteq> None"
    using located_assigned[of pdf adjusted] l by simp
  then have s: "sort_chapters located = Inr (sort_key (\<lambda>c. the (actual_page c)) located)"
    by (rule sort_chapters_assigned)
  define srt where "srt = sort_key (\<lambda>c. the (actual_page c)) located"
  define k where "k = (case mf of None \<Rightarrow> int (length srt)
                       | Some n \<Rightarrow> if n \<noteq> 0 then min (int (length srt)) n else int (length srt))"
  have "main pdf sf mf =
        (ms1 @ ms2,
         if sf then Shown (show_only (int (length pdf)) srt mf)
         else Extracted (split_pdf_by_chapters (int (length pdf)) srt mf) k)"
    unfolding main_def Let_def assms d prod.case adjusted_def[symmetric] l s k_def srt_def
    by simp
  with d l s show ?thesis
    by (intro exI[of _ adjusted] exI[of _ srt] exI[of _ k]) (simp add: srt_def)
qed

text \<open>
  C5. For a non-empty chapter list with first chapter \<open>c\<close>, let \<open>s\<close> be the best score the
  loop ends with over the window \<open>[page c - 20, page c + 30)\<close>: no page of the window scores
  more. If \<open>s \<ge> 30\<close>, the best page is a page \<open>b\<close> of the window with that score and the offset
  returned is \<open>(b + 1) - page c\<close>. If \<open>s < 30\<close>, the offset returned is 0 together with the
  low-confidence warning. In both cases the run goes on: when \<open>c\<close> is the first chapter the
  extractor found, \<^verbatim>\<open>main\<close> ends with the listing or the split, and its messages start with
  those of the detector.
\<close>

theorem offset_from_best_page:
  "\<exists>bp s.
      offset_scan pdf (number c) (title c) (search_window pdf (page c) 20 30) (None, 0) = (bp, s) \<and>
      (\<forall>i\<in>set (search_window pdf (page c) 20 30). \<forall>x. page_text pdf i = Some x \<longrightarrow>
          offset_page_score (number c) (title c) x \<le> s) \<and>
      (30 \<le> s \<longrightarrow>
         (\<exists>b\<in>set (search_window pdf (page c) 20 30). bp = Some b \<and>
             (\<exists>x. page_text pdf b = Some x \<and> offset_page_score (number c) (title c) x = s) \<and>
             auto_detect_page_offset pdf (c # cs)
               = (int b + 1 - page c, [Offset_found (int b + 1) s (int b + 1 - page c)]))) \<and>
      (s < 30 \<longrightarrow> auto_detect_page_offset pdf (c # cs) = (0, [Offset_not_detected])) \<and>
      (extract_toc_from_pdf pdf = c # cs \<longrightarrow>
         (\<exists>ms r ev k. main pdf sf mf = (snd (auto_detect_page_offset pdf (c # cs)) @ ms, Shown r) \<or>
                    main pdf sf mf = (snd (auto_detect_page_offset pdf (c # cs)) @ ms, Extracted ev k)))"
proof -
  obtain bp s where scan:
    "offset_scan pdf (number c) (title c) (search_window pdf (page c) 20 30) (None, 0) = (bp, s)"
    by (cases "offset_scan pdf (number c) (title c) (search_window pdf (page c) 20 30) (None, 0)")
  note r = offset_scan_search[OF scan]
  have hi: "\<exists>b\<in>set (search_window pdf (page c) 20 30). bp = Some b \<and>
             (\<exists>x. page_text pdf b = Some x \<and> offset_page_score (number c) (title c) x = s) \<and>
             auto_detect_page_offset pdf (c # cs)
               = (int b + 1 - page c, [Offset_found (int b + 1) s (int b + 1 - page c)])"
    if "30 \<le> s"
  proof -
    from r that obtain b where b: "b \<in> set (search_window pdf (page c) 20 30)" "bp = Some b"
        "\<exists>x. page_text pdf b = Some x \<and> offset_page_score (number c) (title c) x = s"
      by auto
    have "auto_detect_page_offset pdf (c # cs)
               = (int b + 1 - page c, [Offset_found (int b + 1) s (int b + 1 - page c)])"
      using scan b(2) that by (simp add: auto_detect_page_offset_def Let_def)
    with b show ?thesis by blast
  qed
  have lo: "auto_detect_page_offset pdf (c # cs) = (0, [Offset_not_detected])" if "s < 30"
    using scan that by (simp add: auto_detect_page_offset_def Let_def split: option.splits)
  have run: "\<exists>ms r ev k. main pdf sf mf = (snd (auto_detect_page_offset pdf (c # cs)) @ ms, Shown r) \<or>
                    main pdf sf mf = (snd (auto_detect_page_offset pdf (c # cs)) @ ms, Extracted ev k)"
    if "extract_toc_from_pdf pdf = c # cs"
    using main_run[OF that, of sf mf] by (cases sf) auto
  from scan r hi lo run show ?thesis by blast
qed

theorem offset_from_best_page_witness:
  "auto_detect_page_offset [Some ''Cover'', None, Some ''text'', Some ''1.1 Intro'']
     [\<lparr>number = ''1.1'', title = ''Intro'', page = 1, level = 1, actual_page = None\<rparr>]
     = (3, [Offset_found 4 80 3]) \<and>
   auto_detect_page_offset [Some ''Cover'', None, Some ''text'', Some ''1.1. Overview'']
     [\<lparr>number = ''1.1'', title = ''Intro'', page = 1, level = 1, actual_page = None\<rparr>]
     = (0, [Offset_not_detected])"
proof -
  have e: ?thesis by code_simp
  from offset_from_best_page
    [of "[Some ''Cover'', None, Some ''text'', Some ''1.1 Intro'']"
        "\<lparr>number = ''1.1'', title = ''Intro'', page = 1, level = 1, actual_page = None\<rparr>" "[]"]
  show ?thesis by - (rule e)
qed

text \<open>
  C6. For every chapter \<open>c\<close>, let \<open>s\<close> be the best score the loop ends with over the window
  \<open>[page c - 5, page c + 15)\<close>, where \<open>page c\<close> is the page as \<^verbatim>\<open>main\<close> adjusted it by the offset.
  If \<open>s \<ge> 100\<close>, the best page is a page \<open>b\<close> of the window with that score and the chapter
  gets \<open>actual_page = b + 1\<close>, without a warning. If \<open>s < 100\<close>, the chapter gets
  \<open>actual_page = page c\<close> and the warning that it was not located. The stage treats every
  chapter on its own and returns all of them, and the run goes on: \<^verbatim>\<open>main\<close> ends with the
  listing or the split, and its messages end with those of this stage.
\<close>

theorem locator_threshold:
  "(\<exists>bp s.
      locate_scan pdf (number c) (title c) (search_window pdf (page c) 5 15) (None, 0) = (bp, s) \<and>
      (\<forall>i\<in>set (search_window pdf (page c) 5 15). \<forall>x. page_text pdf i = Some x \<longrightarrow>
          locate_lines_score (number c) (title c) (split_lines x) \<le> s) \<and>
      (100 \<le> s \<longrightarrow>
         (\<exists>b\<in>set (search_window pdf (page c) 5 15). bp = Some (int b + 1) \<and>
             (\<exists>x. page_text pdf b = Some x \<and>
                  locate_lines_score (number c) (title c) (split_lines x) = s) \<and>
             locate_chapter pdf c = (c\<lparr>actual_page := Some (int b + 1)\<rparr>, []))) \<and>
      (s < 100 \<longrightarrow>
         locate_chapter pdf c
           = (c\<lparr>actual_page := Some (page c)\<rparr>, [Chapter_not_located (number c) (page c)]))) \<and>
   find_chapter_actual_pages pdf chs =
     (map (\<lambda>c. fst (locate_chapter pdf c)) chs, concat (map (\<lambda>c. snd (locate_chapter pdf c)) chs)) \<and>
   (extract_toc_from_pdf pdf \<noteq> [] \<longrightarrow>
      (\<exists>adjusted ms r ev k.
          main pdf sf mf = (ms @ snd (find_chapter_actual_pages pdf adjusted), Shown r) \<or>
          main pdf sf mf = (ms @ snd (find_chapter_actual_pages pdf adjusted), Extracted ev k)))"
proof -
  obtain bp s where scan:
    "locate_scan pdf (number c) (title c) (search_window pdf (page c) 5 15) (None, 0) = (bp, s)"
    by (cases "locate_scan pdf (number c) (title c) (search_window pdf (page c) 5 15) (None, 0)")
  note r = locate_scan_search[OF scan]
  have hi: "\<exists>b\<in>set (search_window pdf (page c) 5 15). bp = Some (int b + 1) \<and>
             (\<exists>x. page_text pdf b = Some x \<and>
                  locate_lines_score (number c) (title c) (split_lines x) = s) \<and>
             locate_chapter pdf c = (c\<lparr>actual_page := Some (int b + 1)\<rparr>, [])"
    if "100 \<le> s"
  proof -
    from r that obtain b where b: "b \<in> set (search_window pdf (page c) 5 15)"
        "bp = Some (int b + 1)"
        "\<exists>x. page_text pdf b = Some x \<and> locate_lines_score (number c) (title c) (split_lines x) = s"
      by auto
    have "locate_chapter pdf c = (c\<lparr>actual_page := Some (int b + 1)\<rparr>, [])"
      using scan b(2) that by (simp add: locate_chapter_def Let_def)
    with b show ?thesis by blast
  qed
  have lo: "locate_chapter pdf c
           = (c\<lparr>actual_page := Some (page c)\<rparr>, [Chapter_not_located (number c) (page c)])"
    if "s < 100"
    using scan that by (simp add: locate_chapter_def Let_def split: option.splits)
  have run: "\<exists>adjusted ms r ev k.
          main pdf sf mf = (ms @ snd (find_chapter_actual_pages pdf adjusted), Shown r) \<or>
          main pdf sf mf = (ms @ snd (find_chapter_actual_pages pdf adjusted), Extracted ev k)"
    if "extract_toc_from_pdf pdf \<noteq> []"
  proof -
    from that obtain c0 cs0 where "extract_toc_from_pdf pdf = c0 # cs0"
      by (cases "extract_toc_from_pdf pdf") auto
    from main_run[OF this, of sf mf] obtain adjusted srt k where
      m: "main pdf sf mf =
        (snd (auto_detect_page_offset pdf (c0 # cs0)) @ snd (find_chapter_actual_pages pdf adjusted),
         if sf then Shown (show_only (int (length pdf)) srt mf)
         else Extracted (split_pdf_by_chapters (int (length pdf)) srt mf) k)"
      by blast
    show ?thesis
    proof (cases sf)
      case True
      with m show ?thesis by auto
    next
      case False
      with m show ?thesis by auto
    qed
  qed
  from scan r hi lo run find_chapter_actual_pages_map[of pdf chs] show ?thesis by blast
qed

theorem locator_threshold_witness:
  "find_chapter_actual_pages [Some ''Cover'', None, Some ''text'', Some ''1.1 Intro'']
     [\<lparr>number = ''1.1'', title = ''Intro'', page = 2, level = 1, actual_page = None\<rparr>,
      \<lparr>number = ''1.2'', title = ''Setup'', page = 3, level = 1, actual_page = None\<rparr>]
     = ([\<lparr>number = ''1.1'', title = ''Intro'', page = 2, level = 1, actual_page = Some 4\<rparr>,
         \<lparr>number = ''1.2'', title = ''Setup'', page = 3, level = 1, actual_page = Some 3\<rparr>],
        [Chapter_not_located ''1.2'' 3]) \<and>
   locate_scan [Some ''Cover'', None, Some ''text'', Some ''1.1 Intro''] ''1.1'' ''Intro''
     (search_window [Some ''Cover'', None, Some ''text'', Some ''1.1 Intro''] 2 5 15) (None, 0)
     = (Some 4, 150)"
proof -
  have e: ?thesis by code_simp
  from locator_threshold
    [of "[Some ''Cover'', None, Some ''text'', Some ''1.1 Intro'']"
        "\<lparr>number = ''1.1'', title = ''Intro'', page = 2, level = 1, actual_page = None\<rparr>"
        "[\<lparr>number = ''1.1'', title = ''Intro'', page = 2, level = 1, actual_page = None\<rparr>,
          \<lparr>number = ''1.2'', title = ''Setup'', page = 3, level = 1, actual_page = None\<rparr>]"]
  show ?thesis by - (rule e)
qed

lemma limit_chapters_take: "\<exists>m. limit_chapters mf chs = take m chs"
proof (cases mf)
  case None
  then have "limit_chapters mf chs = take (length chs) chs" by (simp add: limit_chapters_def)
  then show ?thesis ..
next
  case (Some n)
  show ?thesis
  proof (cases "n = 0")
    case True
    with Some have "limit_chapters mf chs = take (length chs) chs"
      by (simp add: limit_chapters_def)
    then show ?thesis ..
  next
    case False
    with Some show ?thesis by (auto simp: limit_chapters_def py_take_def)
  qed
qed

text \<open>On chapters that all have a page, the only exception the splitter can raise is the
  \<^verbatim>\<open>IndexError\<close> of the page copy.\<close>

lemma split_loop_only_index_error:
  assumes asg: "\<forall>c\<in>set chs. actual_page c \<noteq> None"
  shows "\<forall>i\<in>set is. i < length chs \<Longrightarrow>
           snd (split_loop T chs is) = None \<or> snd (split_loop T chs is) = Some IndexError"
proof (induction "is")
  case Nil
  show ?case by simp
next
  case (Cons i rest)
  then have i: "i < length chs" by simp
  show ?case
  proof (cases "split_chapter T chs i")
    case (Inl err)
    with emit_chapter_error[of T "chs ! i" _ _ err] split_chapter_assigned[OF asg i, of T]
    have "err = IndexError" by simp
    with Inl show ?thesis by simp
  next
    case (Inr ev)
    with Cons show ?thesis by (cases "split_loop T chs rest") auto
  qed
qed

lemma split_only_index_error:
  assumes "\<forall>c\<in>set chs. actual_page c \<noteq> None"
  shows "snd (split_pdf_by_chapters T chs mf) = None \<or>
         snd (split_pdf_by_chapters T chs mf) = Some IndexError"
proof -
  obtain m where m: "limit_chapters mf chs = take m chs"
    using limit_chapters_take by blast
  have "\<forall>c\<in>set (take m chs). actual_page c \<noteq> None"
    using assms by (meson in_set_takeD)
  from split_loop_only_index_error[OF this, of "[0..<length (take m chs)]" T] show ?thesis
    by (simp add: split_pdf_by_chapters_def Let_def m)
qed

lemma show_chapter_no_error:
  assumes asg: "\<forall>c\<in>set chs. actual_page c \<noteq> None" and c: "c \<in> set chs"
  shows "\<exists>r. show_chapter T chs c = Inr r"
proof -
  from asg c obtain p where p: "actual_page c = Some p" by auto
  from py_index_first[OF c] obtain k where k: "py_index chs c = Some k" by blast
  have "\<forall>x\<in>set (drop (Suc k) chs). actual_page x \<noteq> None"
    using asg by (meson in_set_dropD)
  from find_end_page_find[OF this, of T p] p k show ?thesis
    by (simp add: show_chapter_def)
qed

lemma show_loop_no_error:
  assumes asg: "\<forall>c\<in>set chs. actual_page c \<noteq> None"
  shows "set cs \<subseteq> set chs \<Longrightarrow> snd (show_loop T chs cs) = None"
proof (induction cs)
  case Nil
  show ?case by simp
next
  case (Cons c cs)
  then have "c \<in> set chs" by simp
  from show_chapter_no_error[OF asg this, of T] obtain r where "show_chapter T chs c = Inr r"
    by blast
  with Cons show ?case by (cases "show_loop T chs cs") auto
qed

lemma show_no_error:
  assumes "\<forall>c\<in>set chs. actual_page c \<noteq> None"
  shows "snd (show_only T chs mf) = None"
proof -
  obtain m where m: "limit_chapters mf chs = take m chs"
    using limit_chapters_take by blast
  have "set (take m chs) \<subseteq> set chs" by (rule set_take_subset)
  from show_loop_no_error[OF assms this] show ?thesis by (simp add: show_only_def m)
qed

lemma locate_chapter_value:
  "\<exists>v ms. locate_chapter pdf c = (c\<lparr>actual_page := Some v\<rparr>, ms) \<and>
          ((1 \<le> v \<and> v \<le> int (length pdf)) \<or> v = page c)"
proof -
  obtain bp s where scan:
    "locate_scan pdf (number c) (title c) (search_window pdf (page c) 5 15) (None, 0) = (bp, s)"
    by (cases "locate_scan pdf (number c) (title c) (search_window pdf (page c) 5 15) (None, 0)")
  show ?thesis
  proof (cases "bp \<noteq> None \<and> 100 \<le> s")
    case True
    with locate_scan_search[OF scan] obtain b where
      b: "b \<in> set (search_window pdf (page c) 5 15)" "bp = Some (int b + 1)" by auto
    from search_window_in_document[OF b(1)] have "1 \<le> int b + 1 \<and> int b + 1 \<le> int (length pdf)"
      by simp
    moreover have "locate_chapter pdf c = (c\<lparr>actual_page := Some (int b + 1)\<rparr>, [])"
      using scan b(2) True by (simp add: locate_chapter_def Let_def)
    ultimately show ?thesis by blast
  next
    case False
    then have "locate_chapter pdf c
           = (c\<lparr>actual_page := Some (page c)\<rparr>, [Chapter_not_located (number c) (page c)])"
      using scan by (auto simp: locate_chapter_def Let_def split: option.splits)
    then show ?thesis by blast
  qed
qed

text \<open>
  C9, as the code has it. The locator returns the chapters it was given, in the same order,
  each with \<^verbatim>\<open>actual_page\<close> now set and nothing else changed. The page set is either a page
  of the document, between 1 and the number of pages (the best page of a successful search),
  or the chapter's offset-adjusted TOC page, whatever integer that is. On the list returned
  the sort of \<^verbatim>\<open>main\<close> succeeds, and on the sorted list no chapter is met without its
  \<^verbatim>\<open>actual_page\<close>: the listing raises nothing, and the splitter raises no \<^verbatim>\<open>KeyError\<close>; the
  one exception it can end with is the \<^verbatim>\<open>IndexError\<close> of the page copy, on a fallback page at
  or below \<open>- total_pages\<close>.
\<close>

theorem located_pages_assigned:
  "length (fst (find_chapter_actual_pages pdf chs)) = length chs \<and>
   (\<forall>i<length chs. \<exists>v.
       fst (find_chapter_actual_pages pdf chs) ! i = (chs ! i)\<lparr>actual_page := Some v\<rparr> \<and>
       ((1 \<le> v \<and> v \<le> int (length pdf)) \<or> v = page (chs ! i))) \<and>
   (\<exists>srt. sort_chapters (fst (find_chapter_actual_pages pdf chs)) = Inr srt \<and>
          (snd (split_pdf_by_chapters T srt mf) = None \<or>
           snd (split_pdf_by_chapters T srt mf) = Some IndexError) \<and>
          snd (show_only T srt mf) = None)"
proof -
  have 1: "length (fst (find_chapter_actual_pages pdf chs)) = length chs"
    by (simp add: find_chapter_actual_pages_map)
  have 2: "\<exists>v. fst (find_chapter_actual_pages pdf chs) ! i = (chs ! i)\<lparr>actual_page := Some v\<rparr> \<and>
       ((1 \<le> v \<and> v \<le> int (length pdf)) \<or> v = page (chs ! i))" if "i < length chs" for i
    using locate_chapter_value[of pdf "chs ! i"] that
    by (auto simp: find_chapter_actual_pages_map)
  define located where "located = fst (find_chapter_actual_pages pdf chs)"
  define srt where "srt = sort_key (\<lambda>c. the (actual_page c)) located"
  have asg: "\<forall>c\<in>set located. actual_page c \<noteq> None"
    unfolding located_def by (rule located_assigned)
  then have "\<forall>c\<in>set srt. actual_page c \<noteq> None" by (simp add: srt_def)
  then have "snd (split_pdf_by_chapters T srt mf) = None \<or>
             snd (split_pdf_by_chapters T srt mf) = Some IndexError"
    "snd (show_only T srt mf) = None"
    by (rule split_only_index_error, rule show_no_error)
  moreover have "sort_chapters located = Inr srt"
    unfolding srt_def using asg by (rule sort_chapters_assigned)
  ultimately have 3: "\<exists>srt. sort_chapters (fst (find_chapter_actual_pages pdf chs)) = Inr srt \<and>
          (snd (split_pdf_by_chapters T srt mf) = None \<or>
           snd (split_pdf_by_chapters T srt mf) = Some IndexError) \<and>
          snd (show_only T srt mf) = None"
    unfolding located_def by blast
  from 1 2 3 show ?thesis by blast
qed

theorem located_pages_assigned_witness:
  "fst (find_chapter_actual_pages [Some ''Cover'', Some ''2.1 Pins'', Some ''1.1 Intro'']
     [\<lparr>number = ''1.1'', title = ''Intro'', page = 2, level = 1, actual_page = None\<rparr>,
      \<lparr>number = ''2.1'', title = ''Pins'', page = 3, level = 1, actual_page = None\<rparr>,
      \<lparr>number = ''2.2'', title = ''Timers'', page = 3, level = 1, actual_page = None\<rparr>])
     = [\<lparr>number = ''1.1'', title = ''Intro'', page = 2, level = 1, actual_page = Some 3\<rparr>,
        \<lparr>number = ''2.1'', title = ''Pins'', page = 3, level = 1, actual_page = Some 2\<rparr>,
        \<lparr>number = ''2.2'', title = ''Timers'', page = 3, level = 1, actual_page = Some 3\<rparr>] \<and>
   sort_chapters
       [\<lparr>number = ''1.1'', title = ''Intro'', page = 2, level = 1, actual_page = Some 3\<rparr>,
        \<lparr>number = ''2.1'', title = ''Pins'', page = 3, level = 1, actual_page = Some 2\<rparr>,
        \<lparr>number = ''2.2'', title = ''Timers'', page = 3, level = 1, actual_page = Some 3\<rparr>]
     = Inr [\<lparr>number = ''2.1'', title = ''Pins'', page = 3, level = 1, actual_page = Some 2\<rparr>,
            \<lparr>number = ''1.1'', title = ''Intro'', page = 2, level = 1, actual_page = Some 3\<rparr>,
            \<lparr>number = ''2.2'', title = ''Timers'', page = 3, level = 1, actual_page = Some 3\<rparr>]"
proof -
  have e: ?thesis by code_simp
  from located_pages_assigned
    [of "[Some ''Cover'', Some ''2.1 Pins'', Some ''1.1 Intro'']"
        "[\<lparr>number = ''1.1'', title = ''Intro'', page = 2, level = 1, actual_page = None\<rparr>,
          \<lparr>number = ''2.1'', title = ''Pins'', page = 3, level = 1, actual_page = None\<rparr>,
          \<lparr>number = ''2.2'', title = ''Timers'', page = 3, level = 1, actual_page = None\<rparr>]"]
  show ?thesis by - (rule e)
qed

text \<open>
  A document of one page with the lines \<^verbatim>\<open>1.1 Intro .... 20\<close> and \<^verbatim>\<open>3.3 V on pin 0\<close>. Both lines
  are taken as TOC entries. The detector finds the first on page 1 and returns the offset
  -19, so \<^verbatim>\<open>main\<close> hands the locator the pages 1 and -19; the window of the second chapter is
  empty, and its \<^verbatim>\<open>actual_page\<close> becomes -19. The listing shows it with the pages -19 to 0;
  the split ends at it with the \<^verbatim>\<open>IndexError\<close> of \<^verbatim>\<open>reader.pages[-20]\<close>, before any file.
\<close>

theorem fallback_page_not_positive:
  "find_chapter_actual_pages [Some (''1.1 Intro .... 20'' @ [CHR 0x0A] @ ''3.3 V on pin 0'')]
     [\<lparr>number = ''1.1'', title = ''Intro'', page = 1, level = 1, actual_page = None\<rparr>,
      \<lparr>number = ''3.3'', title = ''V on pin'', page = - 19, level = 1, actual_page = None\<rparr>]
     = ([\<lparr>number = ''1.1'', title = ''Intro'', page = 1, level = 1, actual_page = Some 1\<rparr>,
         \<lparr>number = ''3.3'', title = ''V on pin'', page = - 19, level = 1,
            actual_page = Some (- 19)\<rparr>],
        [Chapter_not_located ''3.3'' (- 19)]) \<and>
   main [Some (''1.1 Intro .... 20'' @ [CHR 0x0A] @ ''3.3 V on pin 0'')] True None
     = ([Offset_found 1 80 (- 19), Chapter_not_located ''3.3'' (- 19)],
        Shown ([Row ''3.3'' ''V on pin'' (- 19) 0 20 ''micropython-docs3-3.pdf'',
                Row ''1.1'' ''Intro'' 1 1 1 ''micropython-docs1-1.pdf''], None)) \<and>
   main [Some (''1.1 Intro .... 20'' @ [CHR 0x0A] @ ''3.3 V on pin 0'')] False None
     = ([Offset_found 1 80 (- 19), Chapter_not_located ''3.3'' (- 19)],
        Extracted ([], Some IndexError) 2)"
  by code_simp

section \<open>The TOC extractor\<close>

lemma star_greedy_sound:
  "(m, r) \<in> set (star_greedy P s) \<Longrightarrow> s = m @ r \<and> (\<forall>c\<in>set m. P c)"
  by (induction s arbitrary: m r) (auto split: if_splits)

lemma plus_greedy_sound:
  "(m, r) \<in> set (plus_greedy P s) \<Longrightarrow> s = m @ r \<and> m \<noteq> [] \<and> (\<forall>c\<in>set m. P c)"
  by (cases s) (auto simp: plus_greedy_def split: if_splits dest!: star_greedy_sound)

lemma fraction_opt_sound:
  "(m, r) \<in> set (fraction_opt s) \<Longrightarrow>
     s = m @ r \<and> (\<forall>c\<in>set m. is_digit c \<or> c = CHR ''.'')"
  by (cases s) (auto simp: fraction_opt_def split: if_splits dest!: plus_greedy_sound)

lemma number_group_sound:
  "(g, r) \<in> set (number_group s) \<Longrightarrow>
     s = g @ r \<and> (\<forall>c\<in>set g. is_digit c \<or> c = CHR ''.'')"
  by (auto simp: number_group_def dest!: plus_greedy_sound fraction_opt_sound)

lemma number_char_not_space: "is_digit c \<or> c = CHR ''.'' \<Longrightarrow> \<not> is_space c"
  by (auto simp: is_digit_def is_space_def)

text \<open>Group 1 of any match of either pattern is the line up to its first space character:
  the number is made of digits and dots, and a space must follow it.\<close>

lemma number_then_space:
  assumes g: "(g1, r1) \<in> set (number_group line)"
    and sp: "(s1, r2) \<in> set (plus_greedy is_space r1)"
  shows "g1 = takeWhile (\<lambda>x. \<not> is_space x) line"
proof -
  from number_group_sound[OF g] have line: "line = g1 @ r1"
    and ns: "\<forall>c\<in>set g1. \<not> is_space c"
    using number_char_not_space by auto
  from plus_greedy_sound[OF sp] obtain c m where "r1 = c # m" "is_space c"
    by (cases s1) auto
  with line ns show ?thesis by (simp add: takeWhile_tail)
qed

lemma leader_matches_number:
  "(g1, g2, g3) \<in> set (leader_matches line) \<Longrightarrow> g1 = takeWhile (\<lambda>x. \<not> is_space x) line"
  by (auto simp: leader_matches_def dest: number_then_space)

lemma plain_matches_number:
  "(g1, g2, g3) \<in> set (plain_matches line) \<Longrightarrow> g1 = takeWhile (\<lambda>x. \<not> is_space x) line"
  by (auto simp: plain_matches_def dest: number_then_space split: if_splits)

lemma first_match_in: "first_match ms = Some m \<Longrightarrow> m \<in> set ms"
  by (cases ms) (auto simp: first_match_def)

lemma toc_match_number:
  assumes "toc_match line = Some (g1, g2, g3)"
  shows "g1 = takeWhile (\<lambda>x. \<not> is_space x) line"
proof (cases "first_match (leader_matches line)")
  case None
  with assms have "first_match (plain_matches line) = Some (g1, g2, g3)"
    by (simp add: toc_match_def)
  then show ?thesis by (blast dest: first_match_in plain_matches_number)
next
  case (Some m)
  with assms have "first_match (leader_matches line) = Some (g1, g2, g3)"
    by (simp add: toc_match_def)
  then show ?thesis by (blast dest: first_match_in leader_matches_number)
qed

lemma map_filter_append:
  "List.map_filter f (xs @ ys) = List.map_filter f xs @ List.map_filter f ys"
  by (simp add: List.map_filter_def)

lemma extract_lines_map_filter:
  "extract_lines ls acc = acc @ List.map_filter toc_line ls"
  by (induction ls arbitrary: acc) (auto simp: List.map_filter_simps split: option.splits)

lemma extract_pages_map_filter:
  "extract_pages pdf is acc =
     acc @ List.map_filter toc_line
             (concat (map (\<lambda>i. case page_text pdf i of None \<Rightarrow> [] | Some text \<Rightarrow> split_lines text) is))"
  by (induction "is" arbitrary: acc)
     (auto simp: List.map_filter_simps map_filter_append extract_lines_map_filter
           split: option.splits)

text \<open>
  C7. A line yields a chapter exactly when \<^verbatim>\<open>re.match\<close> succeeds with one of the two patterns
  and group 1 of that match, the section number, contains exactly one dot. The number of a
  chapter that is retained is the line up to its first space character, has exactly one
  dot, and its level is 1; so a line whose leading number has no dot, such as \<^verbatim>\<open>1\<close>, or two or
  more dots, such as \<^verbatim>\<open>1.2.3\<close>, yields nothing. The extractor returns, in scan order, what the
  lines of the first 20 pages that have text yield.
\<close>

theorem toc_line_retains_depth_one:
  "(toc_line line \<noteq> None \<longleftrightarrow>
      (\<exists>g1 g2 g3.
          (first_match (leader_matches line) = Some (g1, g2, g3) \<or>
           first_match (plain_matches line) = Some (g1, g2, g3)) \<and>
          count_list g1 CHR ''.'' = 1)) \<and>
   (\<forall>c. toc_line line = Some c \<longrightarrow>
      number c = takeWhile (\<lambda>x. \<not> is_space x) line \<and>
      count_list (number c) CHR ''.'' = 1 \<and> level c = 1) \<and>
   (count_list (takeWhile (\<lambda>x. \<not> is_space x) line) CHR ''.'' \<noteq> 1 \<longrightarrow> toc_line line = None) \<and>
   extract_toc_from_pdf pdf =
     List.map_filter toc_line
       (concat (map (\<lambda>i. case page_text pdf i of None \<Rightarrow> [] | Some text \<Rightarrow> split_lines text)
                  [0..<min 20 (length pdf)]))"
proof -
  have retained: "number c = takeWhile (\<lambda>x. \<not> is_space x) line \<and>
      count_list (number c) CHR ''.'' = 1 \<and> level c = 1" if "toc_line line = Some c" for c
  proof -
    from that obtain g1 g2 g3 where m: "toc_match line = Some (g1, g2, g3)"
      and one: "count_list g1 CHR ''.'' = 1" and c: "number c = g1" "level c = 1"
      by (auto simp: toc_line_def Let_def split: option.splits if_splits)
    from toc_match_number[OF m] one c show ?thesis by simp
  qed
  have iff: "toc_line line \<noteq> None \<longleftrightarrow>
      (\<exists>g1 g2 g3.
          (first_match (leader_matches line) = Some (g1, g2, g3) \<or>
           first_match (plain_matches line) = Some (g1, g2, g3)) \<and>
          count_list g1 CHR ''.'' = 1)" (is "?L \<longleftrightarrow> ?R")
  proof
    assume ?L
    then obtain g1 g2 g3 where m: "toc_match line = Some (g1, g2, g3)"
      and one: "count_list g1 CHR ''.'' = 1"
      by (auto simp: toc_line_def Let_def split: option.splits if_splits)
    from m have "first_match (leader_matches line) = Some (g1, g2, g3) \<or>
           first_match (plain_matches line) = Some (g1, g2, g3)"
      by (auto simp: toc_match_def split: option.splits)
    with one show ?R by blast
  next
    assume ?R
    then obtain g1 g2 g3 where
      m: "first_match (leader_matches line) = Some (g1, g2, g3) \<or>
          first_match (plain_matches line) = Some (g1, g2, g3)"
      and one: "count_list g1 CHR ''.'' = 1" by blast
    from m have g1: "g1 = takeWhile (\<lambda>x. \<not> is_space x) line"
      by (blast dest: first_match_in leader_matches_number plain_matches_number)
    from m obtain h1 h2 h3 where t: "toc_match line = Some (h1, h2, h3)"
      by (cases "first_match (leader_matches line)") (auto simp: toc_match_def)
    from toc_match_number[OF t] g1 have "h1 = g1" by simp
    with t one show ?L by (simp add: toc_line_def Let_def)
  qed
  have none: "toc_line line = None"
    if "count_list (takeWhile (\<lambda>x. \<not> is_space x) line) CHR ''.'' \<noteq> 1"
  proof (cases "toc_line line")
    case None
    then show ?thesis .
  next
    case (Some c)
    from retained[OF Some] have "count_list (takeWhile (\<lambda>x. \<not> is_space x) line) CHR ''.'' = 1"
      by metis
    with that show ?thesis by blast
  qed
  have "extract_toc_from_pdf pdf =
     List.map_filter toc_line
       (concat (map (\<lambda>i. case page_text pdf i of None \<Rightarrow> [] | Some text \<Rightarrow> split_lines text)
                  [0..<min 20 (length pdf)]))"
    by (simp add: extract_toc_from_pdf_def extract_pages_map_filter)
  with retained iff none show ?thesis by blast
qed

theorem toc_line_retains_depth_one_witness:
  "toc_line ''1.1 Intro .... 5''
     = Some \<lparr>number = ''1.1'', title = ''Intro'', page = 5, level = 1, actual_page = None\<rparr> \<and>
   toc_line ''1.2 Getting Started 10''
     = Some \<lparr>number = ''1.2'', title = ''Getting Started'', page = 10, level = 1,
             actual_page = None\<rparr> \<and>
   toc_line ''1 Basics 4'' = None \<and>
   toc_line ''1.2.3 Deep 4'' = None \<and>
   first_match (plain_matches ''1 Basics 4'') = Some (''1'', ''Basics'', ''4'') \<and>
   first_match (plain_matches ''1.2.3 Deep 4'') = None \<and>
   extract_toc_from_pdf
     [Some (''1 Basics 4'' @ [CHR 0x0A] @ ''1.1 Intro .... 5'' @ [CHR 0x0A] @ ''1.2 Setup .... 9''),
      None, Some ''1.2.3 Deep 4'']
     = [\<lparr>number = ''1.1'', title = ''Intro'', page = 5, level = 1, actual_page = None\<rparr>,
        \<lparr>number = ''1.2'', title = ''Setup'', page = 9, level = 1, actual_page = None\<rparr>]"
proof -
  have e: ?thesis by code_simp
  from toc_line_retains_depth_one
    [of "''1.1 Intro .... 5''"
        "[Some (''1 Basics 4'' @ [CHR 0x0A] @ ''1.1 Intro .... 5'' @ [CHR 0x0A] @ ''1.2 Setup .... 9''),
          None, Some ''1.2.3 Deep 4'']"]
  show ?thesis by - (rule e)
qed


end
